theory Spec2Isabelle
  imports Main "HOL-Library.Word" "HOL-Library.Signed_Division" "HOL-Library.Multiset"
begin

section \<open>Data model of quickhull.cpp\<close>

text \<open>
  A C++ \<open>int\<close> is a 32-bit two's complement value: \<open>+\<close>, \<open>-\<close> and \<open>*\<close> on
  \<open>32 word\<close> wrap modulo \<open>2 ^ 32\<close>, \<open>sint\<close> reads the signed value and \<open><s\<close> is the
  signed comparison.
\<close>

type_synonym int32 = "32 word"

text \<open>The constants at the top of the file.\<close>

definition windowWidth :: int32 where "windowWidth = 1280"
definition windowHeight :: int32 where "windowHeight = 720"
definition windowMargin :: int32 where "windowMargin = 10"
definition pointXmax :: int32 where "pointXmax = windowWidth - (windowMargin * 2)"
definition pointYmax :: int32 where "pointYmax = windowHeight - (windowMargin * 2)"

text \<open>\<open>struct Point\<close>.\<close>

record Point =
  x :: int32
  y :: int32

text \<open>\<open>enum StepDataProgress\<close>, in the order of the source.\<close>

datatype StepDataProgress = SDP_RecurseOne | SDP_RecurseTwo | SDP_Done | SDP_FirstIteration

text \<open>
  \<open>struct StepData\<close>. The \<open>StepData\<close> objects live in a store, a list indexed by
  address; a \<open>shared_ptr\<close> to a \<open>StepData\<close> is an \<open>addr option\<close>, with \<open>None\<close> for
  \<open>nullptr\<close>. \<open>std::make_shared\<close> appends a cell to the store. Releasing a cell is not
  observable by the program, so cells are never removed.
\<close>

type_synonym addr = nat

record StepData =
  pointSet :: "Point list"
  segmentA :: Point
  segmentB :: Point
  progress :: StepDataProgress
  recursiveOne :: "addr option"
  recursiveTwo :: "addr option"
  prevStep :: "addr option"

text \<open>The data members of \<open>class QuickHull\<close> (the SFML shapes apart), and the store.\<close>

record QuickHull =
  store :: "StepData list"
  basePointList :: "Point list"
  hullPoints :: "Point list"
  nextStep :: "addr option"
  center :: Point
  minPoint :: Point
  maxPoint :: Point
  furthestStore :: Point

text \<open>
  The program has no \<open>throw\<close>, no assertion and no error return. The only abnormal
  outcomes are the undefined behaviours of C++ that its unchecked accesses can run into.
\<close>

datatype undefined_behaviour = VectorIndexOutOfRange | NullPointerDereference

section \<open>Geometry\<close>

definition comparePoints :: "Point \<Rightarrow> Point \<Rightarrow> bool" where
  "comparePoints lhs rhs \<longleftrightarrow> x lhs = x rhs \<and> y lhs = y rhs"

text \<open>
  The expression that both \<open>calcPointsOnRightSide\<close> and \<open>calculateFurthestPoint\<close>
  assign to their local \<open>determinant\<close> (the latter under \<open>abs\<close>), in \<open>int\<close> arithmetic.
\<close>

definition determinant :: "Point \<Rightarrow> Point \<Rightarrow> Point \<Rightarrow> int32" where
  "determinant a b c =
     (let x1 = x a; y1 = y a; x2 = x b; y2 = y b; x3 = x c; y3 = y c
      in (x1 * y2) + (x3 * y1) + (x2 * y3) - (x3 * y2) - (x2 * y1) - (x1 * y3))"

text \<open>\<open>abs\<close> on \<open>int\<close>, as compiled: the negation wraps at \<open>INT_MIN\<close>.\<close>

definition abs_int :: "int32 \<Rightarrow> int32" where
  "abs_int w = (if w <s 0 then - w else w)"

text \<open>
  \<open>calcPointsOnRightSide\<close>: the loop over \<open>list\<close> is a fold whose state is the vector
  \<open>temp\<close>; \<open>push_back\<close> appends.
\<close>

definition calcPointsOnRightSide :: "Point \<Rightarrow> Point \<Rightarrow> Point list \<Rightarrow> Point list" where
  "calcPointsOnRightSide bgn en list =
     fold (\<lambda>p temp.
             if comparePoints p bgn \<or> comparePoints p en then temp
             else if determinant bgn en p <s 0 then temp @ [p]
             else temp)
          list []"

text \<open>
  \<open>calculateFurthestPoint\<close>: \<open>list[0]\<close> is read unchecked before the loop; the state of the
  loop is the pair \<open>(furthest, prevMax)\<close>, starting at \<open>(list[0], -1)\<close>.
\<close>

definition furthestLoopBody :: "Point \<Rightarrow> Point \<Rightarrow> Point \<Rightarrow> Point \<times> int32 \<Rightarrow> Point \<times> int32" where
  "furthestLoopBody sA sB p st =
     (let d = abs_int (determinant sA sB p)
      in if snd st <s d then (p, d) else st)"

definition calculateFurthestPoint ::
    "Point \<Rightarrow> Point \<Rightarrow> Point list \<Rightarrow> undefined_behaviour + Point" where
  "calculateFurthestPoint sA sB list =
     (case list of
        [] \<Rightarrow> Inl VectorIndexOutOfRange
      | p0 # _ \<Rightarrow> Inr (fst (fold (furthestLoopBody sA sB) list (p0, - 1))))"

text \<open>
  The comparator of the three \<open>std::sort\<close> calls, and the sort itself. Two points that
  the comparator does not order are equal, so the sorted vector does not depend on the
  sorting algorithm; insertion sort stands for it.
\<close>

definition pointLess :: "Point \<Rightarrow> Point \<Rightarrow> bool" where
  "pointLess left right \<longleftrightarrow> (x left <s x right) \<or> (x left = x right \<and> y left <s y right)"

fun insertPoint :: "Point \<Rightarrow> Point list \<Rightarrow> Point list" where
  "insertPoint p [] = [p]"
| "insertPoint p (q # qs) = (if pointLess q p then q # insertPoint p qs else p # q # qs)"

definition sortPoints :: "Point list \<Rightarrow> Point list" where
  "sortPoints ps = foldr insertPoint ps []"

section \<open>The exact orientation value\<close>

text \<open>
  What the specification calls \<open>orientationSign\<close> and \<open>extremalDistance\<close>: the signed
  twice-area of the triangle and its absolute value, over the mathematical integers.
  These two follow the specification's words, to be compared with \<open>determinant\<close> and
  \<open>abs_int\<close>, which follow the source. \<open>inIntRange\<close> is the range of a C++ \<open>int\<close>.
\<close>

definition orientationSign :: "Point \<Rightarrow> Point \<Rightarrow> Point \<Rightarrow> int" where
  "orientationSign a b c =
     (sint (x a) * sint (y b)) + (sint (x c) * sint (y a)) + (sint (x b) * sint (y c))
       - (sint (x c) * sint (y b)) - (sint (x b) * sint (y a)) - (sint (x a) * sint (y c))"

definition inIntRange :: "int \<Rightarrow> bool" where
  "inIntRange k \<longleftrightarrow> - (2 ^ 31) \<le> k \<and> k < 2 ^ 31"

definition extremalDistance :: "Point \<Rightarrow> Point \<Rightarrow> Point \<Rightarrow> int" where
  "extremalDistance a b c = \<bar>orientationSign a b c\<bar>"

text \<open>
  The exact value of every intermediate result of the determinant expression, in the
  order of evaluation: the six products and the five partial sums.
\<close>

definition determinantSteps :: "Point \<Rightarrow> Point \<Rightarrow> Point \<Rightarrow> int list" where
  "determinantSteps a b c =
     (let x1 = sint (x a); y1 = sint (y a); x2 = sint (x b); y2 = sint (y b);
          x3 = sint (x c); y3 = sint (y c)
      in [x1 * y2, x3 * y1, x2 * y3, x3 * y2, x2 * y1, x1 * y3,
          x1 * y2 + x3 * y1,
          x1 * y2 + x3 * y1 + x2 * y3,
          x1 * y2 + x3 * y1 + x2 * y3 - x3 * y2,
          x1 * y2 + x3 * y1 + x2 * y3 - x3 * y2 - x2 * y1,
          x1 * y2 + x3 * y1 + x2 * y3 - x3 * y2 - x2 * y1 - x1 * y3])"

text \<open>
  The generator of \<open>randomizeInput\<close>: \<open>rand() % pointXmax + windowMargin\<close>, with \<open>%\<close>
  truncating; and the range of the coordinates it produces.
\<close>

definition randomPoint :: "int32 \<Rightarrow> int32 \<Rightarrow> Point" where
  "randomPoint r1 r2 =
     \<lparr>x = word_of_int (sint r1 smod sint pointXmax) + windowMargin,
      y = word_of_int (sint r2 smod sint pointYmax) + windowMargin\<rparr>"

definition inWindow :: "Point \<Rightarrow> bool" where
  "inWindow p \<longleftrightarrow>
     sint windowMargin \<le> sint (x p) \<and> sint (x p) < sint windowMargin + sint pointXmax \<and>
     sint windowMargin \<le> sint (y p) \<and> sint (y p) < sint windowMargin + sint pointYmax"

section \<open>The recursion tree and the step driver\<close>

text \<open>
  \<open>std::make_shared<StepData>()\<close> value-initialises the object: an empty vector, zeroed
  points, the first enumerator, null pointers.
\<close>

definition emptyStepData :: StepData where
  "emptyStepData =
     \<lparr>pointSet = [], segmentA = \<lparr>x = 0, y = 0\<rparr>, segmentB = \<lparr>x = 0, y = 0\<rparr>,
      progress = SDP_RecurseOne, recursiveOne = None, recursiveTwo = None, prevStep = None\<rparr>"

text \<open>
  \<open>prepareNextRecursion\<close>, on the store \<open>h\<close>; \<open>currentStep\<close> is the address of a cell of
  \<open>h\<close> (both callers pass a pointer they have just dereferenced). \<open>leftStep\<close> and
  \<open>rightStep\<close> are allocated in this order.
\<close>

definition prepareNextRecursion ::
    "StepData list \<Rightarrow> addr \<Rightarrow> Point \<Rightarrow> Point \<Rightarrow> Point \<Rightarrow> StepData list" where
  "prepareNextRecursion h currentStep P Q C =
     (let leftStep = length h;
          rightStep = length h + 1;
          pts = pointSet (h ! currentStep);
          l = emptyStepData
                \<lparr>progress := SDP_RecurseOne,
                 pointSet := sortPoints (calcPointsOnRightSide P C pts),
                 segmentA := P, segmentB := C,
                 prevStep := Some currentStep\<rparr>;
          r = emptyStepData
                \<lparr>progress := SDP_RecurseOne,
                 pointSet := sortPoints (calcPointsOnRightSide C Q pts),
                 segmentA := C, segmentB := Q,
                 prevStep := Some currentStep\<rparr>;
          h' = h @ [l, r]
      in h'[currentStep := (h' ! currentStep)
              \<lparr>recursiveOne := Some rightStep, recursiveTwo := Some leftStep\<rparr>])"

text \<open>
  \<open>randomizeInput\<close>. \<open>rand()\<close> is outside the program: \<open>rnd k\<close> is the result of its
  \<open>k\<close>-th call. \<open>randomPoints\<close> is the generating loop; \<open>randomizeInputWith\<close> is the rest
  of the function, from the first \<open>std::sort\<close> on, with the generated vector as its
  argument. \<open>basePointList[0]\<close> is read unchecked. The tree of the previous computation
  is dropped with the old root pointer.
\<close>

definition randomPoints :: "int \<Rightarrow> (nat \<Rightarrow> int32) \<Rightarrow> Point list" where
  "randomPoints pointCount rnd =
     map (\<lambda>i. randomPoint (rnd (2 * i)) (rnd (2 * i + 1))) [0 ..< nat pointCount]"

definition randomizeInputWith :: "Point list \<Rightarrow> QuickHull \<Rightarrow> undefined_behaviour + QuickHull" where
  "randomizeInputWith generated q =
     (let base = sortPoints generated
      in if base = [] then Inl VectorIndexOutOfRange
         else
           (let minP = hd base;
                maxP = last base;
                root = emptyStepData
                         \<lparr>pointSet := base, progress := SDP_FirstIteration,
                          segmentA := minP, segmentB := maxP\<rparr>
            in Inr (q\<lparr>store := prepareNextRecursion [root] 0 minP minP maxP,
                      basePointList := base,
                      hullPoints := [minP, maxP],
                      nextStep := Some 0,
                      minPoint := minP,
                      maxPoint := maxP,
                      center := \<lparr>x = windowWidth div 2, y = windowHeight div 2\<rparr>\<rparr>)))"

definition randomizeInput ::
    "int \<Rightarrow> (nat \<Rightarrow> int32) \<Rightarrow> QuickHull \<Rightarrow> undefined_behaviour + QuickHull" where
  "randomizeInput pointCount rnd q = randomizeInputWith (randomPoints pointCount rnd) q"

text \<open>
  The \<open>while (nextStep->progress == SDP_Done)\<close> loop of \<open>step\<close>, from the cell at address
  \<open>a\<close>. It returns the store, the address it stopped at, and \<open>False\<close> when it left
  through \<open>return false\<close>. The loop follows \<open>prevStep\<close> pointers and need not terminate
  on an arbitrary store: \<open>None\<close> is the run that never returns.
\<close>

partial_function (option) unwindDone ::
    "StepData list \<Rightarrow> addr \<Rightarrow> (undefined_behaviour + StepData list \<times> addr \<times> bool) option" where
  "unwindDone h a =
     (if length h \<le> a then Some (Inl NullPointerDereference)
      else if progress (h ! a) = SDP_Done then
        (let h' = h[a := (h ! a)\<lparr>recursiveOne := None, recursiveTwo := None\<rparr>]
         in case prevStep (h' ! a) of
              None \<Rightarrow> Some (Inr (h', a, False))
            | Some p \<Rightarrow> unwindDone h' p)
      else Some (Inr (h, a, True)))"

declare unwindDone.simps [code]

text \<open>
  The rest of \<open>step\<close>, after the loop: the visit of the cell at address \<open>a\<close>.
  \<open>stepPoints[0]\<close> is read unchecked. The \<open>switch\<close> has no case for \<open>SDP_Done\<close>.
\<close>

definition visit :: "QuickHull \<Rightarrow> addr \<Rightarrow> undefined_behaviour + bool \<times> QuickHull" where
  "visit q a =
     (let stepPoints = pointSet (store q ! a)
      in if stepPoints = [] then Inl VectorIndexOutOfRange
         else
           (let q1 = q\<lparr>minPoint := hd stepPoints, maxPoint := last stepPoints\<rparr>;
                sA = segmentA (store q ! a);
                sB = segmentB (store q ! a)
            in case calculateFurthestPoint sA sB stepPoints of
                 Inl e \<Rightarrow> Inl e
               | Inr furthest \<Rightarrow>
                   (let q2 = (if progress (store q1 ! a) = SDP_RecurseOne
                              then q1\<lparr>store := prepareNextRecursion (store q1) a sA sB furthest,
                                      hullPoints := hullPoints q1 @ [furthest],
                                      furthestStore := furthest\<rparr>
                              else q1);
                        n = store q2 ! a
                    in case progress n of
                         SDP_FirstIteration \<Rightarrow>
                           Inr (True, q2\<lparr>store := (store q2)[a := n\<lparr>progress := SDP_RecurseTwo\<rparr>],
                                         nextStep := recursiveOne n\<rparr>)
                       | SDP_RecurseOne \<Rightarrow>
                           Inr (True, q2\<lparr>store := (store q2)[a := n\<lparr>progress := SDP_RecurseTwo\<rparr>],
                                         nextStep := recursiveOne n\<rparr>)
                       | SDP_RecurseTwo \<Rightarrow>
                           Inr (True, q2\<lparr>store := (store q2)[a := n\<lparr>progress := SDP_Done\<rparr>],
                                         nextStep := recursiveTwo n\<rparr>)
                       | SDP_Done \<Rightarrow> Inr (True, q2))))"

text \<open>\<open>step\<close>: the marking of an empty cell, the loop, the visit.\<close>

definition markEmpty :: "StepData list \<Rightarrow> addr \<Rightarrow> StepData list" where
  "markEmpty h a =
     (if pointSet (h ! a) = [] then h[a := (h ! a)\<lparr>progress := SDP_Done\<rparr>] else h)"

definition step :: "QuickHull \<Rightarrow> (undefined_behaviour + bool \<times> QuickHull) option" where
  "step q =
     (case nextStep q of
        None \<Rightarrow> Some (Inl NullPointerDereference)
      | Some a \<Rightarrow>
          if length (store q) \<le> a then Some (Inl NullPointerDereference)
          else
            (case unwindDone (markEmpty (store q) a) a of
               None \<Rightarrow> None
             | Some (Inl e) \<Rightarrow> Some (Inl e)
             | Some (Inr (h, a', continue)) \<Rightarrow>
                 if continue then Some (visit (q\<lparr>store := h, nextStep := Some a'\<rparr>) a')
                 else Some (Inr (False, q\<lparr>store := h, nextStep := Some a'\<rparr>))))"

text \<open>
  The loop of \<open>main\<close>: \<open>while (continueLoop) continueLoop = QH.step();\<close>
\<close>

partial_function (option) runSteps :: "QuickHull \<Rightarrow> (undefined_behaviour + QuickHull) option" where
  "runSteps q =
     (case step q of
        None \<Rightarrow> None
      | Some (Inl e) \<Rightarrow> Some (Inl e)
      | Some (Inr (continueLoop, q')) \<Rightarrow> if continueLoop then runSteps q' else Some (Inr q'))"

declare runSteps.simps [code]

text \<open>The state after \<open>n\<close> calls of \<open>step\<close> that all returned.\<close>

fun afterSteps :: "nat \<Rightarrow> QuickHull \<Rightarrow> QuickHull option" where
  "afterSteps 0 q = Some q"
| "afterSteps (Suc n) q =
     (case step q of
        Some (Inr (_, q')) \<Rightarrow> afterSteps n q'
      | _ \<Rightarrow> None)"

text \<open>A \<open>QuickHull\<close> object before its first \<open>randomizeInput\<close>.\<close>

definition newQuickHull :: QuickHull where
  "newQuickHull =
     \<lparr>store = [], basePointList = [], hullPoints = [], nextStep = None,
      center = \<lparr>x = 0, y = 0\<rparr>, minPoint = \<lparr>x = 0, y = 0\<rparr>, maxPoint = \<lparr>x = 0, y = 0\<rparr>,
      furthestStore = \<lparr>x = 0, y = 0\<rparr>\<rparr>"

section \<open>The cells the driver makes\<close>

text \<open>
  A cell as \<open>prepareNextRecursion\<close> leaves it for the parent at address \<open>parent\<close> and
  the segment from \<open>A\<close> to \<open>B\<close>, and the root cell as \<open>randomizeInput\<close> leaves it.
\<close>

definition childCell :: "addr \<Rightarrow> Point \<Rightarrow> Point \<Rightarrow> Point list \<Rightarrow> StepData" where
  "childCell parent A B pts =
     \<lparr>pointSet = sortPoints (calcPointsOnRightSide A B pts), segmentA = A, segmentB = B,
      progress = SDP_RecurseOne, recursiveOne = None, recursiveTwo = None,
      prevStep = Some parent\<rparr>"

definition rootCell :: "Point list \<Rightarrow> StepData" where
  "rootCell base =
     \<lparr>pointSet = base, segmentA = hd base, segmentB = last base,
      progress = SDP_FirstIteration, recursiveOne = Some 2, recursiveTwo = Some 1,
      prevStep = None\<rparr>"

section \<open>The effect of the loop on the store\<close>

text \<open>
  The loop only clears the child pointers of cells that are done: \<open>released\<close> is a
  cell after the two assignments of \<open>nullptr\<close>, \<open>sameCells\<close> relates a store to one
  where some done cells were released, and \<open>stopsAt\<close> says where the loop ends: at a
  cell that is not done (\<open>b\<close> is \<open>True\<close>), or at a done cell without parent.
\<close>

definition released :: "StepData \<Rightarrow> StepData" where
  "released n = n\<lparr>recursiveOne := None, recursiveTwo := None\<rparr>"

definition sameCells :: "StepData list \<Rightarrow> StepData list \<Rightarrow> bool" where
  "sameCells h h' \<longleftrightarrow>
     length h' = length h
     \<and> (\<forall>i < length h. h' ! i = h ! i \<or> (progress (h ! i) = SDP_Done \<and> h' ! i = released (h ! i)))"

definition stopsAt :: "StepData list \<Rightarrow> addr \<Rightarrow> StepData list \<Rightarrow> addr \<Rightarrow> bool \<Rightarrow> bool" where
  "stopsAt h a h' a' b \<longleftrightarrow>
     sameCells h h' \<and> a' < length h
     \<and> (if b then progress (h' ! a') \<noteq> SDP_Done
         else progress (h' ! a') = SDP_Done \<and> prevStep (h' ! a') = None
              \<and> recursiveOne (h' ! a') = None \<and> recursiveTwo (h' ! a') = None)
     \<and> (a' = a \<or> (\<exists>c < length h. prevStep (h ! c) = Some a'))"

text \<open>
  The cells the loop leaves, in order: \<open>popsTo h a popped a'\<close> says that the cells at the
  addresses \<open>popped\<close>, starting at \<open>a\<close>, are done, that each has the next as its parent,
  and that the parent of the last is \<open>a'\<close> (which is \<open>a\<close> when none is left).
  \<open>loopStopsAt\<close> adds the reason for which the loop ends at \<open>a'\<close>: the cell there is not
  done (\<open>b\<close> is \<open>True\<close>), or it is done and has no parent. \<open>releaseAll\<close> clears the child
  pointers of the cells at the given addresses.
\<close>

fun popsTo :: "StepData list \<Rightarrow> addr \<Rightarrow> addr list \<Rightarrow> addr \<Rightarrow> bool" where
  "popsTo h a [] a' \<longleftrightarrow> a' = a"
| "popsTo h a (c # cs) a' \<longleftrightarrow>
     c = a \<and> a < length h \<and> progress (h ! a) = SDP_Done
     \<and> (case prevStep (h ! a) of None \<Rightarrow> False | Some p \<Rightarrow> popsTo h p cs a')"

definition loopStopsAt :: "StepData list \<Rightarrow> addr \<Rightarrow> addr list \<Rightarrow> addr \<Rightarrow> bool \<Rightarrow> bool" where
  "loopStopsAt h a popped a' b \<longleftrightarrow>
     popsTo h a popped a' \<and> a' < length h
     \<and> (if b then progress (h ! a') \<noteq> SDP_Done
         else progress (h ! a') = SDP_Done \<and> prevStep (h ! a') = None)"

definition releaseAll :: "addr list \<Rightarrow> StepData list \<Rightarrow> StepData list" where
  "releaseAll cs h = fold (\<lambda>c h. h[c := released (h ! c)]) cs h"

section \<open>Invariant and measure of the traversal\<close>

text \<open>
  What holds of every cell of the store during a computation: a parent pointer points to
  an older cell whose point set is not empty; a cell waiting for its second branch, or the
  root before its first visit, has a non-empty point set and the child pointers that the
  next visit follows.
\<close>

definition cellOk :: "StepData list \<Rightarrow> addr \<Rightarrow> bool" where
  "cellOk h a \<longleftrightarrow>
     (case prevStep (h ! a) of None \<Rightarrow> True | Some p \<Rightarrow> p < a \<and> pointSet (h ! p) \<noteq> [])
     \<and> (progress (h ! a) = SDP_RecurseTwo \<longrightarrow>
          pointSet (h ! a) \<noteq> []
          \<and> (case recursiveTwo (h ! a) of None \<Rightarrow> False | Some c \<Rightarrow> c < length h))
     \<and> (progress (h ! a) = SDP_FirstIteration \<longrightarrow>
          pointSet (h ! a) \<noteq> []
          \<and> (case recursiveOne (h ! a) of None \<Rightarrow> False | Some c \<Rightarrow> c < length h)
          \<and> (case recursiveTwo (h ! a) of None \<Rightarrow> False | Some c \<Rightarrow> c < length h))"

definition wellFormed :: "QuickHull \<Rightarrow> bool" where
  "wellFormed q \<longleftrightarrow>
     (case nextStep q of None \<Rightarrow> False | Some c \<Rightarrow> c < length (store q))
     \<and> (\<forall>a < length (store q). cellOk (store q) a)"

text \<open>
  The visits a cell can still cause: none when done, one when waiting for its second
  branch, two for the root before its first visit, and a bound on those of the whole
  subtree for a cell not visited yet, whose children will hold fewer points than it.
\<close>

definition weight :: "StepData \<Rightarrow> nat" where
  "weight n =
     (case progress n of
        SDP_RecurseOne \<Rightarrow> 3 ^ (length (pointSet n) + 1)
      | SDP_RecurseTwo \<Rightarrow> 1
      | SDP_Done \<Rightarrow> 0
      | SDP_FirstIteration \<Rightarrow> 2)"

definition potential :: "StepData list \<Rightarrow> nat" where
  "potential h = sum_list (map weight h)"

text \<open>
  The root is the cell at address 0; every other cell is made by
  \<open>prepareNextRecursion\<close>: it has a parent, which is an older cell, its point set holds
  neither endpoint of its segment and is shorter than that of the parent. The root cell
  holds both endpoints of its own segment.
\<close>

definition holdsEndpoint :: "StepData \<Rightarrow> bool" where
  "holdsEndpoint n \<longleftrightarrow>
     (\<exists>p \<in> set (pointSet n). comparePoints p (segmentA n) \<or> comparePoints p (segmentB n))"

definition childOk :: "StepData list \<Rightarrow> addr \<Rightarrow> bool" where
  "childOk h a \<longleftrightarrow>
     \<not> holdsEndpoint (h ! a)
     \<and> (\<exists>p < a. prevStep (h ! a) = Some p
                 \<and> length (pointSet (h ! a)) < length (pointSet (h ! p)))"

definition childrenClean :: "StepData list \<Rightarrow> bool" where
  "childrenClean h \<longleftrightarrow> (\<forall>a < length h. 0 < a \<longrightarrow> childOk h a)"

definition rootHoldsBoth :: "StepData list \<Rightarrow> bool" where
  "rootHoldsBoth h \<longleftrightarrow>
     h \<noteq> [] \<and> prevStep (h ! 0) = None
     \<and> (\<exists>p \<in> set (pointSet (h ! 0)). comparePoints p (segmentA (h ! 0)))
     \<and> (\<exists>p \<in> set (pointSet (h ! 0)). comparePoints p (segmentB (h ! 0)))"

text \<open>
  How a call can change the store: cells are only added, the points, the segment and the
  parent of a cell never change, and an added cell is a child as above.
\<close>

definition grows :: "StepData list \<Rightarrow> StepData list \<Rightarrow> bool" where
  "grows h h' \<longleftrightarrow>
     length h \<le> length h'
     \<and> (\<forall>i < length h.
           pointSet (h' ! i) = pointSet (h ! i) \<and> prevStep (h' ! i) = prevStep (h ! i)
           \<and> segmentA (h' ! i) = segmentA (h ! i) \<and> segmentB (h' ! i) = segmentB (h ! i))
     \<and> (\<forall>i < length h'. length h \<le> i \<longrightarrow> childOk h' i)"

section \<open>The hull points a computation has appended\<close>

text \<open>
  A cell that has a parent and a non-empty point set, and whose progress is past
  \<open>SDP_RecurseOne\<close>, has been visited: \<open>appended\<close> is the furthest point of such a
  cell, as a list of one element, and the empty list for every other cell; \<open>account\<close>
  collects these over the store. Of the two kinds of cell, the one without parent is
  never in \<open>SDP_RecurseOne\<close> and those with a parent are never in
  \<open>SDP_FirstIteration\<close>.
\<close>

definition appended :: "StepData \<Rightarrow> Point list" where
  "appended n =
     (if prevStep n \<noteq> None \<and> pointSet n \<noteq> []
         \<and> (progress n = SDP_RecurseTwo \<or> progress n = SDP_Done)
      then (case calculateFurthestPoint (segmentA n) (segmentB n) (pointSet n) of
              Inr f \<Rightarrow> [f]
            | Inl _ \<Rightarrow> [])
      else [])"

definition account :: "StepData list \<Rightarrow> Point list" where
  "account h = concat (map appended h)"

definition cellKind :: "StepData \<Rightarrow> bool" where
  "cellKind n \<longleftrightarrow>
     (prevStep n = None \<longrightarrow> progress n \<noteq> SDP_RecurseOne)
     \<and> (prevStep n \<noteq> None \<longrightarrow> progress n \<noteq> SDP_FirstIteration)"

definition progressOk :: "StepData list \<Rightarrow> bool" where
  "progressOk h \<longleftrightarrow> list_all cellKind h"

section \<open>A computation on three points\<close>

definition examplePoints :: "Point list" where
  "examplePoints = [\<lparr>x = 0, y = 0\<rparr>, \<lparr>x = 4, y = 0\<rparr>, \<lparr>x = 2, y = - 3\<rparr>]"

definition exampleStart :: QuickHull where
  "exampleStart =
     (case randomizeInputWith examplePoints newQuickHull of
        Inr q \<Rightarrow> q
      | Inl _ \<Rightarrow> newQuickHull)"

definition exampleAfter :: "nat \<Rightarrow> QuickHull" where
  "exampleAfter n = (case afterSteps n exampleStart of Some q \<Rightarrow> q | None \<Rightarrow> newQuickHull)"

section \<open>Basic facts\<close>

lemma comparePoints_eq: "comparePoints p q \<longleftrightarrow> p = q"
  by (cases p, cases q) (auto simp: comparePoints_def)

subsection \<open>Arithmetic on \<open>int\<close> without overflow\<close>

lemma sint_mult_exact:
  fixes a b :: int32
  assumes "inIntRange (sint a * sint b)"
  shows "sint (a * b) = sint a * sint b"
  using assms by (simp add: inIntRange_def sint_word_ariths signed_take_bit_int_eq_self)

lemma sint_add_exact:
  fixes a b :: int32
  assumes "inIntRange (sint a + sint b)"
  shows "sint (a + b) = sint a + sint b"
  using assms by (simp add: inIntRange_def sint_word_ariths signed_take_bit_int_eq_self)

lemma sint_sub_exact:
  fixes a b :: int32
  assumes "inIntRange (sint a - sint b)"
  shows "sint (a - b) = sint a - sint b"
  using assms by (simp add: inIntRange_def sint_word_ariths signed_take_bit_int_eq_self)

lemma sint_neg_exact:
  fixes a :: int32
  assumes "inIntRange (- sint a)"
  shows "sint (- a) = - sint a"
  using assms by (simp add: inIntRange_def sint_word_ariths signed_take_bit_int_eq_self)

lemma determinant_exact:
  assumes "list_all inIntRange (determinantSteps a b c)"
  shows "sint (determinant a b c) = orientationSign a b c"
  using assms
  by (simp add: determinantSteps_def determinant_def orientationSign_def Let_def
      sint_mult_exact sint_add_exact sint_sub_exact)

lemma abs_int_exact:
  assumes "inIntRange \<bar>sint w\<bar>"
  shows "sint (abs_int w) = \<bar>sint w\<bar>"
proof (cases "w <s 0")
  case True
  then have neg: "sint w < 0" by (simp add: word_sless_alt)
  with assms have "inIntRange (- sint w)" by simp
  then show ?thesis using True neg by (simp add: abs_int_def sint_neg_exact)
next
  case False
  then show ?thesis by (simp add: abs_int_def word_sless_alt)
qed

lemma abs_determinant_exact:
  assumes "list_all inIntRange (determinantSteps a b c)"
    and "inIntRange (extremalDistance a b c)"
  shows "sint (abs_int (determinant a b c)) = extremalDistance a b c"
  using assms abs_int_exact [of "determinant a b c"]
  by (simp add: determinant_exact extremalDistance_def)

text \<open>Where \<open>abs\<close> does wrap, its result is \<open>INT_MIN\<close>.\<close>

lemma abs_int_negative:
  assumes "sint (abs_int w) < 0"
  shows "sint (abs_int w) = - (2 ^ 31)"
proof (rule ccontr)
  assume ne: "sint (abs_int w) \<noteq> - (2 ^ 31)"
  have lo: "- (2 ^ 31) \<le> sint w"
    using sint_ge [of w] by simp
  show False
  proof (cases "w <s 0")
    case True
    then have neg: "sint w < 0" by (simp add: word_sless_alt)
    have abs: "abs_int w = - w" using True by (simp add: abs_int_def)
    show False
    proof (cases "sint w = - (2 ^ 31)")
      case True
      have "sint (- w) = signed_take_bit 31 (- sint w)" by (simp add: sint_word_ariths)
      also have "\<dots> = signed_take_bit 31 (2 ^ 31 :: int)" using True by simp
      also have "\<dots> = - (2 ^ 31)" by (simp add: signed_take_bit_eq_take_bit_minus)
      finally show False using ne abs by simp
    next
      case False
      with lo have "inIntRange (- sint w)" using neg by (simp add: inIntRange_def)
      then have "sint (- w) = - sint w" by (rule sint_neg_exact)
      with neg assms abs show False by simp
    qed
  next
    case False
    then show False using assms by (simp add: abs_int_def word_sless_alt)
  qed
qed

subsection \<open>The generator's range\<close>

lemma window_consts:
  "sint windowMargin = 10" "sint pointXmax = 1260" "sint pointYmax = 700"
  by (simp_all add: windowMargin_def pointXmax_def pointYmax_def windowWidth_def windowHeight_def)

lemma prod_bound:
  fixes a b :: int
  assumes "0 \<le> a" "a < 1270" "0 \<le> b" "b < 710"
  shows "0 \<le> a * b" "a * b < 901700"
proof -
  show "0 \<le> a * b" using assms by simp
  have "a * b \<le> 1269 * 709"
    using assms by (intro mult_mono) auto
  then show "a * b < 901700" by simp
qed

lemma inWindow_bounds:
  assumes "inWindow p"
  shows "0 \<le> sint (x p)" "sint (x p) < 1270" "0 \<le> sint (y p)" "sint (y p) < 710"
  using assms by (simp_all add: inWindow_def window_consts)

lemma window_steps_in_range:
  assumes "inWindow a" "inWindow b" "inWindow c"
  shows "list_all inIntRange (determinantSteps a b c)"
    and "inIntRange (extremalDistance a b c)"
proof -
  note ba = inWindow_bounds [OF assms(1)]
  note bb = inWindow_bounds [OF assms(2)]
  note bc = inWindow_bounds [OF assms(3)]
  note p1 = prod_bound [OF ba(1,2) bb(3,4)]
  note p2 = prod_bound [OF bc(1,2) ba(3,4)]
  note p3 = prod_bound [OF bb(1,2) bc(3,4)]
  note p4 = prod_bound [OF bc(1,2) bb(3,4)]
  note p5 = prod_bound [OF bb(1,2) ba(3,4)]
  note p6 = prod_bound [OF ba(1,2) bc(3,4)]
  show "list_all inIntRange (determinantSteps a b c)"
    using p1 p2 p3 p4 p5 p6 by (simp add: determinantSteps_def Let_def inIntRange_def)
  have "- 2705100 \<le> orientationSign a b c" and "orientationSign a b c \<le> 2705100"
    unfolding orientationSign_def using p1 p2 p3 p4 p5 p6 by linarith+
  then show "inIntRange (extremalDistance a b c)"
    by (simp add: inIntRange_def extremalDistance_def abs_if)
qed

text \<open>\<open>rand()\<close> returns a value between 0 and \<open>RAND_MAX\<close>.\<close>

lemma randomPoint_inWindow:
  assumes "0 \<le> sint r1" "0 \<le> sint r2"
  shows "inWindow (randomPoint r1 r2)"
proof -
  have m1: "0 \<le> sint r1 mod 1260" "sint r1 mod 1260 < 1260" by simp_all
  have m2: "0 \<le> sint r2 mod 700" "sint r2 mod 700 < 700" by simp_all
  have s1: "sint (word_of_int (sint r1 mod 1260) :: int32) = sint r1 mod 1260"
    using m1 by (simp add: sint_sbintrunc' signed_take_bit_int_eq_self)
  have s2: "sint (word_of_int (sint r2 mod 700) :: int32) = sint r2 mod 700"
    using m2 by (simp add: sint_sbintrunc' signed_take_bit_int_eq_self)
  have a1: "sint ((word_of_int (sint r1 mod 1260) :: int32) + windowMargin) = sint r1 mod 1260 + 10"
    using m1 by (subst sint_add_exact) (simp_all add: s1 window_consts inIntRange_def)
  have a2: "sint ((word_of_int (sint r2 mod 700) :: int32) + windowMargin) = sint r2 mod 700 + 10"
    using m2 by (subst sint_add_exact) (simp_all add: s2 window_consts inIntRange_def)
  show ?thesis
    using assms m1 m2
    by (simp add: inWindow_def randomPoint_def window_consts smod_mod_positive a1 a2)
qed

subsection \<open>The two loops over a point list\<close>

lemma calcLoop_filter:
  "fold (\<lambda>p temp.
           if comparePoints p bgn \<or> comparePoints p en then temp
           else if determinant bgn en p <s 0 then temp @ [p]
           else temp) ps acc
   = acc @ filter (\<lambda>p. \<not> comparePoints p bgn \<and> \<not> comparePoints p en
                        \<and> determinant bgn en p <s 0) ps"
  by (induction ps arbitrary: acc) auto

lemma calcPointsOnRightSide_filter:
  "calcPointsOnRightSide bgn en ps =
     filter (\<lambda>p. \<not> comparePoints p bgn \<and> \<not> comparePoints p en \<and> determinant bgn en p <s 0) ps"
  by (simp add: calcPointsOnRightSide_def calcLoop_filter)

text \<open>
  The state of the furthest-point loop after a list \<open>ps\<close>, from the state \<open>(f, m)\<close>:
  either no element exceeded \<open>m\<close> and the state is unchanged, or the state holds the first
  element of greatest value.
\<close>

lemma furthestLoop:
  fixes sA sB :: Point
  defines "v \<equiv> \<lambda>p. abs_int (determinant sA sB p)"
  shows "(\<forall>p\<in>set ps. \<not> m <s v p) \<and> fold (furthestLoopBody sA sB) ps (f, m) = (f, m)
       \<or> (\<exists>before r after. ps = before @ r # after
            \<and> fold (furthestLoopBody sA sB) ps (f, m) = (r, v r)
            \<and> m <s v r
            \<and> (\<forall>p\<in>set before. v p <s v r)
            \<and> (\<forall>p\<in>set after. v p <=s v r))"
proof (induction ps arbitrary: f m)
  case Nil
  show ?case by simp
next
  case (Cons p ps)
  show ?case
  proof (cases "m <s v p")
    case True
    then have st: "fold (furthestLoopBody sA sB) (p # ps) (f, m)
                     = fold (furthestLoopBody sA sB) ps (p, v p)"
      by (simp add: furthestLoopBody_def v_def)
    from Cons.IH [of "v p" p] show ?thesis
    proof
      assume h: "(\<forall>q\<in>set ps. \<not> v p <s v q)
                 \<and> fold (furthestLoopBody sA sB) ps (p, v p) = (p, v p)"
      have "p # ps = [] @ p # ps
            \<and> fold (furthestLoopBody sA sB) (p # ps) (f, m) = (p, v p)
            \<and> m <s v p \<and> (\<forall>q\<in>set []. v q <s v p) \<and> (\<forall>q\<in>set ps. v q <=s v p)"
        using h st True by (auto simp: word_sle_eq word_sless_alt)
      then show ?thesis by blast
    next
      assume "\<exists>before r after. ps = before @ r # after
            \<and> fold (furthestLoopBody sA sB) ps (p, v p) = (r, v r)
            \<and> v p <s v r
            \<and> (\<forall>q\<in>set before. v q <s v r)
            \<and> (\<forall>q\<in>set after. v q <=s v r)"
      then obtain before r after where h: "ps = before @ r # after"
            "fold (furthestLoopBody sA sB) ps (p, v p) = (r, v r)"
            "v p <s v r" "\<forall>q\<in>set before. v q <s v r" "\<forall>q\<in>set after. v q <=s v r"
        by blast
      have "p # ps = (p # before) @ r # after
            \<and> fold (furthestLoopBody sA sB) (p # ps) (f, m) = (r, v r)
            \<and> m <s v r \<and> (\<forall>q\<in>set (p # before). v q <s v r)
            \<and> (\<forall>q\<in>set after. v q <=s v r)"
        using h st True by (auto simp: word_sle_eq word_sless_alt)
      then show ?thesis by blast
    qed
  next
    case False
    then have st: "fold (furthestLoopBody sA sB) (p # ps) (f, m)
                     = fold (furthestLoopBody sA sB) ps (f, m)"
      by (simp add: furthestLoopBody_def v_def)
    from Cons.IH [of m f] show ?thesis
    proof
      assume h: "(\<forall>q\<in>set ps. \<not> m <s v q)
                 \<and> fold (furthestLoopBody sA sB) ps (f, m) = (f, m)"
      then show ?thesis using st False by simp
    next
      assume "\<exists>before r after. ps = before @ r # after
            \<and> fold (furthestLoopBody sA sB) ps (f, m) = (r, v r)
            \<and> m <s v r
            \<and> (\<forall>q\<in>set before. v q <s v r)
            \<and> (\<forall>q\<in>set after. v q <=s v r)"
      then obtain before r after where h: "ps = before @ r # after"
            "fold (furthestLoopBody sA sB) ps (f, m) = (r, v r)"
            "m <s v r" "\<forall>q\<in>set before. v q <s v r" "\<forall>q\<in>set after. v q <=s v r"
        by blast
      have "p # ps = (p # before) @ r # after
            \<and> fold (furthestLoopBody sA sB) (p # ps) (f, m) = (r, v r)
            \<and> m <s v r \<and> (\<forall>q\<in>set (p # before). v q <s v r)
            \<and> (\<forall>q\<in>set after. v q <=s v r)"
        using h st False by (auto simp: word_sle_eq word_sless_alt)
      then show ?thesis by blast
    qed
  qed
qed

text \<open>The result of \<open>calculateFurthestPoint\<close> on a non-empty list, in the machine values.\<close>

lemma calculateFurthestPoint_split:
  assumes "list \<noteq> []"
  shows "\<exists>before r after. list = before @ r # after
           \<and> calculateFurthestPoint sA sB list = Inr r
           \<and> (\<forall>p\<in>set before. abs_int (determinant sA sB p) <s abs_int (determinant sA sB r))
           \<and> (\<forall>p\<in>set after. abs_int (determinant sA sB p) <=s abs_int (determinant sA sB r))"
proof -
  define v where "v = (\<lambda>p. abs_int (determinant sA sB p))"
  from assms obtain p0 rest where list: "list = p0 # rest" by (cases list) auto
  have res: "calculateFurthestPoint sA sB list
               = Inr (fst (fold (furthestLoopBody sA sB) list (p0, - 1)))"
    by (simp add: calculateFurthestPoint_def list)
  from furthestLoop [of list "- 1" sA sB p0]
  show ?thesis
  proof
    assume h: "(\<forall>p\<in>set list. \<not> - 1 <s abs_int (determinant sA sB p))
               \<and> fold (furthestLoopBody sA sB) list (p0, - 1) = (p0, - 1)"
    have low: "sint (v p) = - (2 ^ 31)" if "p \<in> set list" for p
    proof -
      from h that have "\<not> - 1 <s v p" by (simp add: v_def)
      then have "sint (v p) < 0" by (simp add: word_sless_alt)
      then show ?thesis unfolding v_def by (rule abs_int_negative)
    qed
    have "\<forall>p\<in>set rest. v p <=s v p0"
      using low by (simp add: word_sle_eq list)
    then have "list = [] @ p0 # rest \<and> calculateFurthestPoint sA sB list = Inr p0
         \<and> (\<forall>p\<in>set []. v p <s v p0) \<and> (\<forall>p\<in>set rest. v p <=s v p0)"
      using h res list by simp
    then show ?thesis unfolding v_def by blast
  next
    assume "\<exists>before r after. list = before @ r # after
        \<and> fold (furthestLoopBody sA sB) list (p0, - 1) = (r, abs_int (determinant sA sB r))
        \<and> - 1 <s abs_int (determinant sA sB r)
        \<and> (\<forall>p\<in>set before. abs_int (determinant sA sB p) <s abs_int (determinant sA sB r))
        \<and> (\<forall>p\<in>set after. abs_int (determinant sA sB p) <=s abs_int (determinant sA sB r))"
    then obtain before r after where d: "list = before @ r # after"
        "fold (furthestLoopBody sA sB) list (p0, - 1) = (r, abs_int (determinant sA sB r))"
        "\<forall>p\<in>set before. abs_int (determinant sA sB p) <s abs_int (determinant sA sB r)"
        "\<forall>p\<in>set after. abs_int (determinant sA sB p) <=s abs_int (determinant sA sB r)"
      by blast
    have "calculateFurthestPoint sA sB list = Inr r"
      by (simp only: res d(2) fst_conv)
    with d(1,3,4) show ?thesis by blast
  qed
qed

lemma calculateFurthestPoint_member:
  assumes "list \<noteq> []"
  shows "\<exists>r. calculateFurthestPoint sA sB list = Inr r \<and> r \<in> set list"
  using calculateFurthestPoint_split [OF assms, of sA sB] by auto

subsection \<open>The loop of \<open>step\<close>\<close>

lemma released_fields [simp]:
  "pointSet (released n) = pointSet n" "progress (released n) = progress n"
  "prevStep (released n) = prevStep n" "segmentA (released n) = segmentA n"
  "segmentB (released n) = segmentB n" "recursiveOne (released n) = None"
  "recursiveTwo (released n) = None" "released (released n) = released n"
  by (simp_all add: released_def)

lemma released_id: "recursiveOne n = None \<Longrightarrow> recursiveTwo n = None \<Longrightarrow> released n = n"
  by (simp add: released_def)

lemma mark_id: "progress n = SDP_Done \<Longrightarrow> n\<lparr>progress := SDP_Done\<rparr> = n"
  by simp

lemma sameCells_refl: "sameCells h h"
  by (simp add: sameCells_def)

lemma sameCells_release:
  assumes "a < length h" "progress (h ! a) = SDP_Done"
  shows "sameCells h (h[a := released (h ! a)])"
  using assms by (simp add: sameCells_def nth_list_update)

lemma sameCells_trans:
  assumes "sameCells h h1" "sameCells h1 h2"
  shows "sameCells h h2"
  unfolding sameCells_def
proof (intro conjI allI impI)
  show "length h2 = length h" using assms by (simp add: sameCells_def)
next
  fix i assume i: "i < length h"
  from assms(1) i have c1: "h1 ! i = h ! i \<or> (progress (h ! i) = SDP_Done \<and> h1 ! i = released (h ! i))"
    by (simp add: sameCells_def)
  from assms i have c2: "h2 ! i = h1 ! i \<or> (progress (h1 ! i) = SDP_Done \<and> h2 ! i = released (h1 ! i))"
    by (simp add: sameCells_def)
  from c1 c2 show "h2 ! i = h ! i \<or> (progress (h ! i) = SDP_Done \<and> h2 ! i = released (h ! i))"
    by (elim disjE conjE) simp_all
qed

lemma sameCells_fields:
  assumes "sameCells h h'" "i < length h"
  shows "pointSet (h' ! i) = pointSet (h ! i)" "progress (h' ! i) = progress (h ! i)"
    "prevStep (h' ! i) = prevStep (h ! i)" "segmentA (h' ! i) = segmentA (h ! i)"
    "segmentB (h' ! i) = segmentB (h ! i)"
proof -
  from assms have "h' ! i = h ! i \<or> h' ! i = released (h ! i)"
    by (auto simp: sameCells_def)
  then show "pointSet (h' ! i) = pointSet (h ! i)" "progress (h' ! i) = progress (h ! i)"
    "prevStep (h' ! i) = prevStep (h ! i)" "segmentA (h' ! i) = segmentA (h ! i)"
    "segmentB (h' ! i) = segmentB (h ! i)"
    by (elim disjE; simp)+
qed

lemma sameCells_length: "sameCells h h' \<Longrightarrow> length h' = length h"
  by (simp add: sameCells_def)

lemma sameCells_live:
  assumes "sameCells h h'" "i < length h" "progress (h ! i) \<noteq> SDP_Done"
  shows "h' ! i = h ! i"
  using assms by (auto simp: sameCells_def)

text \<open>One turn of the loop, as the definition has it.\<close>

lemma unwindDone_unfold:
  "unwindDone h a =
     (if length h \<le> a then Some (Inl NullPointerDereference)
      else if progress (h ! a) = SDP_Done then
        (case prevStep (h ! a) of
           None \<Rightarrow> Some (Inr (h[a := released (h ! a)], a, False))
         | Some p \<Rightarrow> unwindDone (h[a := released (h ! a)]) p)
      else Some (Inr (h, a, True)))"
proof (cases "length h \<le> a")
  case True
  then show ?thesis by (subst unwindDone.simps) simp
next
  case False
  then have prev: "prevStep (h[a := released (h ! a)] ! a) = prevStep (h ! a)" by simp
  show ?thesis
    by (subst unwindDone.simps) (simp only: Let_def released_def [symmetric] prev)
qed

lemma stopsAt_here_live:
  assumes "a < length h" "progress (h ! a) \<noteq> SDP_Done"
  shows "stopsAt h a h a True"
  using assms by (simp add: stopsAt_def sameCells_refl)

lemma stopsAt_here_root:
  assumes "a < length h" "progress (h ! a) = SDP_Done" "prevStep (h ! a) = None"
  shows "stopsAt h a (h[a := released (h ! a)]) a False"
  using assms by (simp add: stopsAt_def sameCells_release)

lemma stopsAt_pop:
  assumes "a < length h" "progress (h ! a) = SDP_Done" "prevStep (h ! a) = Some p"
    and "stopsAt (h[a := released (h ! a)]) p h' a' b"
  shows "stopsAt h a h' a' b"
proof -
  let ?h1 = "h[a := released (h ! a)]"
  have s1: "sameCells h ?h1" using assms(1,2) by (rule sameCells_release)
  from assms(4) have s2: "sameCells ?h1 h'" and a': "a' < length h"
    and stop: "if b then progress (h' ! a') \<noteq> SDP_Done
         else progress (h' ! a') = SDP_Done \<and> prevStep (h' ! a') = None
              \<and> recursiveOne (h' ! a') = None \<and> recursiveTwo (h' ! a') = None"
    and link: "a' = p \<or> (\<exists>c < length h. prevStep (?h1 ! c) = Some a')"
    by (simp_all add: stopsAt_def)
  have prev: "prevStep (?h1 ! c) = prevStep (h ! c)" if "c < length h" for c
    using sameCells_fields(3) [OF s1 that] .
  have "a' = a \<or> (\<exists>c < length h. prevStep (h ! c) = Some a')"
    using link assms(1,3) prev by auto
  with sameCells_trans [OF s1 s2] a' stop show ?thesis
    by (simp add: stopsAt_def)
qed

lemma unwindDone_result:
  assumes "unwindDone h a = Some (Inr (h', a', b))"
  shows "stopsAt h a h' a' b"
proof -
  define r where "r = (Inr (h', a', b) :: undefined_behaviour + StepData list \<times> addr \<times> bool)"
  have "unwindDone h a = Some r" using assms r_def by simp
  then have "\<forall>h' a' b. r = Inr (h', a', b) \<longrightarrow> stopsAt h a h' a' b"
  proof (induction rule: unwindDone.raw_induct [rotated 1, consumes 1, case_names step])
    case (step unw h a r)
    have prev: "prevStep (h[a := released (h ! a)] ! a) = prevStep (h ! a)" if "a < length h"
      using that by simp
    have body: "(if length h \<le> a then Some (Inl NullPointerDereference)
      else if progress (h ! a) = SDP_Done then
        (case prevStep (h[a := released (h ! a)] ! a) of
           None \<Rightarrow> Some (Inr (h[a := released (h ! a)], a, False))
         | Some p \<Rightarrow> unw (h[a := released (h ! a)]) p)
      else Some (Inr (h, a, True))) = Some r"
      using step.hyps by (simp only: Let_def released_def [symmetric])
    show ?case
    proof (cases "length h \<le> a")
      case True
      with body show ?thesis by auto
    next
      case False
      then have inb: "a < length h" by simp
      show ?thesis
      proof (cases "progress (h ! a) = SDP_Done")
        case live: False
        with body inb have "r = Inr (h, a, True)" by simp
        then show ?thesis using stopsAt_here_live [OF inb live] by simp
      next
        case fin: True
        show ?thesis
        proof (cases "prevStep (h ! a)")
          case None
          with body inb fin prev have "r = Inr (h[a := released (h ! a)], a, False)" by simp
          then show ?thesis using stopsAt_here_root [OF inb fin None] by simp
        next
          case (Some p)
          with body inb fin prev have "unw (h[a := released (h ! a)]) p = Some r" by simp
          from step.IH [OF this] show ?thesis
            using stopsAt_pop [OF inb fin Some] by blast
        qed
      qed
    qed
  qed
  then show ?thesis using r_def by blast
qed

subsection \<open>One call of \<open>step\<close>\<close>

lemma visit_returns_True:
  assumes "visit q a = Inr (b, q')"
  shows "b"
  using assms
  by (auto simp: visit_def Let_def split: if_splits sum.splits StepDataProgress.splits)

lemma step_cases:
  assumes "step q = Some (Inr (b, q'))"
  obtains a h a' where "nextStep q = Some a" "a < length (store q)"
    "unwindDone (markEmpty (store q) a) a = Some (Inr (h, a', b))"
    "if b then visit (q\<lparr>store := h, nextStep := Some a'\<rparr>) a' = Inr (True, q')
     else q' = q\<lparr>store := h, nextStep := Some a'\<rparr>"
proof -
  from assms obtain a where a: "nextStep q = Some a" "a < length (store q)"
    by (auto simp: step_def split: option.splits if_splits)
  from assms a obtain h a' c where u: "unwindDone (markEmpty (store q) a) a = Some (Inr (h, a', c))"
    by (auto simp: step_def split: option.splits sum.splits)
  show thesis
  proof (cases c)
    case True
    with assms a u have v: "visit (q\<lparr>store := h, nextStep := Some a'\<rparr>) a' = Inr (b, q')"
      by (simp add: step_def)
    from visit_returns_True [OF v] have b by simp
    with v u True a that show ?thesis by simp
  next
    case False
    with assms a u have "b = False" "q' = q\<lparr>store := h, nextStep := Some a'\<rparr>"
      by (simp_all add: step_def)
    with u False a that show ?thesis by simp
  qed
qed

lemma markEmpty_length [simp]: "length (markEmpty h a) = length h"
  by (simp add: markEmpty_def)

lemma step_finished_again:
  assumes "step q = Some (Inr (False, q'))"
  shows "step q' = Some (Inr (False, q'))"
proof -
  from assms obtain a h a' where a: "nextStep q = Some a" "a < length (store q)"
    and u: "unwindDone (markEmpty (store q) a) a = Some (Inr (h, a', False))"
    and q': "q' = q\<lparr>store := h, nextStep := Some a'\<rparr>"
    by (rule step_cases) simp
  from unwindDone_result [OF u] have len: "length h = length (store q)" and a': "a' < length h"
    and fin: "progress (h ! a') = SDP_Done" and root: "prevStep (h ! a') = None"
    and rel: "recursiveOne (h ! a') = None" "recursiveTwo (h ! a') = None"
    by (simp_all add: stopsAt_def sameCells_def)
  have m: "markEmpty h a' = h"
    using fin by (simp add: markEmpty_def mark_id)
  have "released (h ! a') = h ! a'" using rel by (rule released_id)
  then have "unwindDone h a' = Some (Inr (h, a', False))"
    using a' fin root by (subst unwindDone_unfold) simp
  then show ?thesis
    using a' m by (simp add: step_def q')
qed

lemma sortPoints_insert_set: "set (insertPoint p ps) = insert p (set ps)"
  by (induction ps) auto

lemma sortPoints_set [simp]: "set (sortPoints ps) = set ps"
  by (induction ps) (simp_all add: sortPoints_def sortPoints_insert_set)

lemma insertPoint_length: "length (insertPoint p ps) = Suc (length ps)"
  by (induction ps) auto

lemma sortPoints_length [simp]: "length (sortPoints ps) = length ps"
  by (induction ps) (simp_all add: sortPoints_def insertPoint_length)

lemma sortPoints_Nil [simp]: "sortPoints ps = [] \<longleftrightarrow> ps = []"
  using sortPoints_length [of ps] by (metis length_0_conv)

lemma randomPoints_Nil: "randomPoints pointCount rnd = [] \<longleftrightarrow> pointCount \<le> 0"
  by (simp add: randomPoints_def)

lemma randomizeInputWith_Nil: "randomizeInputWith [] q = Inl VectorIndexOutOfRange"
  by (simp add: randomizeInputWith_def sortPoints_def)

lemma randomizeInputWith_returns:
  assumes "generated \<noteq> []"
  shows "\<exists>q'. randomizeInputWith generated q = Inr q'"
  using assms by (simp add: randomizeInputWith_def Let_def)

lemma childCell_fields [simp]:
  "pointSet (childCell a A B pts) = sortPoints (calcPointsOnRightSide A B pts)"
  "segmentA (childCell a A B pts) = A" "segmentB (childCell a A B pts) = B"
  "progress (childCell a A B pts) = SDP_RecurseOne"
  "recursiveOne (childCell a A B pts) = None" "recursiveTwo (childCell a A B pts) = None"
  "prevStep (childCell a A B pts) = Some a"
  by (simp_all add: childCell_def)

lemma prepareNextRecursion_eq:
  assumes "a < length h"
  shows "prepareNextRecursion h a P Q C =
           h[a := (h ! a)\<lparr>recursiveOne := Some (length h + 1), recursiveTwo := Some (length h)\<rparr>]
           @ [childCell a P C (pointSet (h ! a)), childCell a C Q (pointSet (h ! a))]"
  using assms
  by (simp add: prepareNextRecursion_def Let_def childCell_def emptyStepData_def
      list_update_append1 nth_append)

text \<open>The visit of a cell, by the progress it finds.\<close>

lemma visit_RecurseOne:
  assumes "a < length (store q)" and "pointSet (store q ! a) \<noteq> []"
    and "progress (store q ! a) = SDP_RecurseOne"
  shows "\<exists>f q'. calculateFurthestPoint (segmentA (store q ! a)) (segmentB (store q ! a))
                   (pointSet (store q ! a)) = Inr f
          \<and> f \<in> set (pointSet (store q ! a))
          \<and> visit q a = Inr (True, q')
          \<and> store q' =
               (store q)[a := (store q ! a)\<lparr>recursiveOne := Some (length (store q) + 1),
                                             recursiveTwo := Some (length (store q)),
                                             progress := SDP_RecurseTwo\<rparr>]
               @ [childCell a (segmentA (store q ! a)) f (pointSet (store q ! a)),
                  childCell a f (segmentB (store q ! a)) (pointSet (store q ! a))]
          \<and> hullPoints q' = hullPoints q @ [f]
          \<and> nextStep q' = Some (length (store q) + 1)
          \<and> basePointList q' = basePointList q"
proof -
  from calculateFurthestPoint_member [OF assms(2)]
  obtain f where f: "calculateFurthestPoint (segmentA (store q ! a)) (segmentB (store q ! a))
                   (pointSet (store q ! a)) = Inr f" "f \<in> set (pointSet (store q ! a))"
    by blast
  show ?thesis
    using assms f
    by (simp add: visit_def Let_def prepareNextRecursion_eq nth_append list_update_append1)
qed

lemma visit_FirstIteration:
  assumes "a < length (store q)" and "pointSet (store q ! a) \<noteq> []"
    and "progress (store q ! a) = SDP_FirstIteration"
  shows "\<exists>q'. visit q a = Inr (True, q')
          \<and> store q' = (store q)[a := (store q ! a)\<lparr>progress := SDP_RecurseTwo\<rparr>]
          \<and> hullPoints q' = hullPoints q
          \<and> nextStep q' = recursiveOne (store q ! a)
          \<and> basePointList q' = basePointList q"
proof -
  from calculateFurthestPoint_member [OF assms(2)]
  obtain f where f: "calculateFurthestPoint (segmentA (store q ! a)) (segmentB (store q ! a))
                   (pointSet (store q ! a)) = Inr f"
    by blast
  show ?thesis
    using assms f by (simp add: visit_def Let_def)
qed

lemma visit_RecurseTwo:
  assumes "a < length (store q)" and "pointSet (store q ! a) \<noteq> []"
    and "progress (store q ! a) = SDP_RecurseTwo"
  shows "\<exists>q'. visit q a = Inr (True, q')
          \<and> store q' = (store q)[a := (store q ! a)\<lparr>progress := SDP_Done\<rparr>]
          \<and> hullPoints q' = hullPoints q
          \<and> nextStep q' = recursiveTwo (store q ! a)
          \<and> basePointList q' = basePointList q"
proof -
  from calculateFurthestPoint_member [OF assms(2)]
  obtain f where f: "calculateFurthestPoint (segmentA (store q ! a)) (segmentB (store q ! a))
                   (pointSet (store q ! a)) = Inr f"
    by blast
  show ?thesis
    using assms f by (simp add: visit_def Let_def)
qed

lemma cellOk_transfer:
  assumes ok: "cellOk h a"
    and len: "length h \<le> length h'"
    and prev: "prevStep (h' ! a) = prevStep (h ! a)"
    and par: "\<And>p. prevStep (h ! a) = Some p \<Longrightarrow> pointSet (h' ! p) = pointSet (h ! p)"
    and two: "progress (h' ! a) = SDP_RecurseTwo \<Longrightarrow>
                progress (h ! a) = SDP_RecurseTwo \<and> pointSet (h' ! a) = pointSet (h ! a)
                \<and> recursiveTwo (h' ! a) = recursiveTwo (h ! a)"
    and first: "progress (h' ! a) = SDP_FirstIteration \<Longrightarrow>
                progress (h ! a) = SDP_FirstIteration \<and> pointSet (h' ! a) = pointSet (h ! a)
                \<and> recursiveOne (h' ! a) = recursiveOne (h ! a)
                \<and> recursiveTwo (h' ! a) = recursiveTwo (h ! a)"
  shows "cellOk h' a"
  unfolding cellOk_def
proof (intro conjI impI)
  show "case prevStep (h' ! a) of None \<Rightarrow> True | Some p \<Rightarrow> p < a \<and> pointSet (h' ! p) \<noteq> []"
    using ok prev par by (auto simp: cellOk_def split: option.splits)
next
  assume p: "progress (h' ! a) = SDP_RecurseTwo"
  from two [OF p] ok len
  show "pointSet (h' ! a) \<noteq> []"
    and "case recursiveTwo (h' ! a) of None \<Rightarrow> False | Some c \<Rightarrow> c < length h'"
    by (auto simp: cellOk_def split: option.splits)
next
  assume p: "progress (h' ! a) = SDP_FirstIteration"
  from first [OF p] ok len
  show "pointSet (h' ! a) \<noteq> []"
    and "case recursiveOne (h' ! a) of None \<Rightarrow> False | Some c \<Rightarrow> c < length h'"
    and "case recursiveTwo (h' ! a) of None \<Rightarrow> False | Some c \<Rightarrow> c < length h'"
    by (auto simp: cellOk_def split: option.splits)
qed

lemma cellOk_parent:
  assumes "cellOk h c" "prevStep (h ! c) = Some p"
  shows "p < c" "pointSet (h ! p) \<noteq> []"
  using assms by (simp_all add: cellOk_def)

lemma markEmpty_nth:
  assumes "i < length h"
  shows "pointSet (markEmpty h a ! i) = pointSet (h ! i)"
    "prevStep (markEmpty h a ! i) = prevStep (h ! i)"
    "segmentA (markEmpty h a ! i) = segmentA (h ! i)"
    "segmentB (markEmpty h a ! i) = segmentB (h ! i)"
    "recursiveOne (markEmpty h a ! i) = recursiveOne (h ! i)"
    "recursiveTwo (markEmpty h a ! i) = recursiveTwo (h ! i)"
    "progress (markEmpty h a ! i) =
       (if i = a \<and> pointSet (h ! a) = [] then SDP_Done else progress (h ! i))"
  using assms by (cases "i = a"; simp add: markEmpty_def)+

lemma markEmpty_cellOk:
  assumes "cellOk h i" "i < length h"
  shows "cellOk (markEmpty h a) i"
proof (rule cellOk_transfer [OF assms(1)])
  show "length h \<le> length (markEmpty h a)" by simp
  show "prevStep (markEmpty h a ! i) = prevStep (h ! i)" using assms(2) by (rule markEmpty_nth)
  show "pointSet (markEmpty h a ! p) = pointSet (h ! p)" if "prevStep (h ! i) = Some p" for p
  proof -
    from cellOk_parent(1) [OF assms(1) that] assms(2) have "p < length h" by simp
    then show ?thesis by (rule markEmpty_nth)
  qed
  show "progress (h ! i) = SDP_RecurseTwo \<and> pointSet (markEmpty h a ! i) = pointSet (h ! i)
         \<and> recursiveTwo (markEmpty h a ! i) = recursiveTwo (h ! i)"
    if "progress (markEmpty h a ! i) = SDP_RecurseTwo"
    using that assms(2) by (simp add: markEmpty_nth split: if_splits)
  show "progress (h ! i) = SDP_FirstIteration \<and> pointSet (markEmpty h a ! i) = pointSet (h ! i)
         \<and> recursiveOne (markEmpty h a ! i) = recursiveOne (h ! i)
         \<and> recursiveTwo (markEmpty h a ! i) = recursiveTwo (h ! i)"
    if "progress (markEmpty h a ! i) = SDP_FirstIteration"
    using that assms(2) by (simp add: markEmpty_nth split: if_splits)
qed

lemma sameCells_cellOk:
  assumes "cellOk h i" "i < length h" "sameCells h h'"
  shows "cellOk h' i"
proof (rule cellOk_transfer [OF assms(1)])
  show "length h \<le> length h'" using assms(3) by (simp add: sameCells_length)
  show "prevStep (h' ! i) = prevStep (h ! i)" using assms(3,2) by (rule sameCells_fields)
  show "pointSet (h' ! p) = pointSet (h ! p)" if "prevStep (h ! i) = Some p" for p
  proof -
    from cellOk_parent(1) [OF assms(1) that] assms(2) have "p < length h" by simp
    with assms(3) show ?thesis by (rule sameCells_fields)
  qed
  have pr: "progress (h' ! i) = progress (h ! i)" using assms(3,2) by (rule sameCells_fields)
  show "progress (h ! i) = SDP_RecurseTwo \<and> pointSet (h' ! i) = pointSet (h ! i)
         \<and> recursiveTwo (h' ! i) = recursiveTwo (h ! i)"
    if "progress (h' ! i) = SDP_RecurseTwo"
    using that pr sameCells_live [OF assms(3,2)] by simp
  show "progress (h ! i) = SDP_FirstIteration \<and> pointSet (h' ! i) = pointSet (h ! i)
         \<and> recursiveOne (h' ! i) = recursiveOne (h ! i)
         \<and> recursiveTwo (h' ! i) = recursiveTwo (h ! i)"
    if "progress (h' ! i) = SDP_FirstIteration"
    using that pr sameCells_live [OF assms(3,2)] by simp
qed

subsection \<open>The measure\<close>

lemma potential_update:
  assumes "a < length h"
  shows "potential (h[a := n]) + weight (h ! a) = potential h + weight n"
  using assms
proof (induction h arbitrary: a)
  case Nil
  then show ?case by simp
next
  case (Cons c h)
  show ?case
  proof (cases a)
    case 0
    then show ?thesis by (simp add: potential_def)
  next
    case (Suc k)
    with Cons.prems have "k < length h" by simp
    from Cons.IH [OF this] Suc show ?thesis by (simp add: potential_def)
  qed
qed

lemma potential_append: "potential (h @ h') = potential h + potential h'"
  by (simp add: potential_def)

lemma weight_same:
  assumes "progress n' = progress n" "pointSet n' = pointSet n"
  shows "weight n' = weight n"
  using assms by (cases "progress n") (simp_all add: weight_def)

lemma potential_same:
  assumes "length h' = length h"
    and "\<And>i. i < length h \<Longrightarrow> weight (h' ! i) = weight (h ! i)"
  shows "potential h' = potential h"
proof -
  have "map weight h' = map weight h"
    using assms by (intro nth_equalityI) simp_all
  then show ?thesis by (simp add: potential_def)
qed

lemma sameCells_potential:
  assumes "sameCells h h'"
  shows "potential h' = potential h"
proof (rule potential_same)
  show "length h' = length h" using assms by (rule sameCells_length)
  show "weight (h' ! i) = weight (h ! i)" if "i < length h" for i
    using sameCells_fields(2,1) [OF assms that] by (rule weight_same)
qed

lemma markEmpty_potential:
  assumes "a < length h"
  shows "potential (markEmpty h a) \<le> potential h"
proof (cases "pointSet (h ! a) = []")
  case True
  have "weight ((h ! a)\<lparr>progress := SDP_Done\<rparr>) = 0" by (simp add: weight_def)
  with potential_update [OF assms, of "(h ! a)\<lparr>progress := SDP_Done\<rparr>"] True
  show ?thesis by (simp add: markEmpty_def)
next
  case False
  then show ?thesis by (simp add: markEmpty_def)
qed

text \<open>A child holds fewer points than its parent: the furthest point is left out.\<close>

lemma calcPointsOnRightSide_shorter:
  assumes "C \<in> set pts"
  shows "length (calcPointsOnRightSide P C pts) < length pts"
    and "length (calcPointsOnRightSide C Q pts) < length pts"
proof -
  show "length (calcPointsOnRightSide P C pts) < length pts"
    unfolding calcPointsOnRightSide_filter
    by (rule length_filter_less [OF assms]) (simp add: comparePoints_eq)
  show "length (calcPointsOnRightSide C Q pts) < length pts"
    unfolding calcPointsOnRightSide_filter
    by (rule length_filter_less [OF assms]) (simp add: comparePoints_eq)
qed

lemma childCell_weight:
  assumes "f \<in> set pts"
  shows "weight (childCell a A f pts) \<le> 3 ^ length pts"
    and "weight (childCell a f B pts) \<le> 3 ^ length pts"
proof -
  from calcPointsOnRightSide_shorter [OF assms]
  have "length (calcPointsOnRightSide A f pts) + 1 \<le> length pts"
    and "length (calcPointsOnRightSide f B pts) + 1 \<le> length pts"
    by (simp_all add: Suc_leI)
  then have "(3::nat) ^ (length (calcPointsOnRightSide A f pts) + 1) \<le> 3 ^ length pts"
    and "(3::nat) ^ (length (calcPointsOnRightSide f B pts) + 1) \<le> 3 ^ length pts"
    by (intro power_increasing; simp)+
  then show "weight (childCell a A f pts) \<le> 3 ^ length pts"
    and "weight (childCell a f B pts) \<le> 3 ^ length pts"
    by (simp_all add: weight_def)
qed

lemma cellOk_iff:
  "cellOk h a \<longleftrightarrow>
     (\<forall>p. prevStep (h ! a) = Some p \<longrightarrow> p < a \<and> pointSet (h ! p) \<noteq> [])
     \<and> (progress (h ! a) = SDP_RecurseTwo \<longrightarrow>
          pointSet (h ! a) \<noteq> [] \<and> (\<exists>c. recursiveTwo (h ! a) = Some c \<and> c < length h))
     \<and> (progress (h ! a) = SDP_FirstIteration \<longrightarrow>
          pointSet (h ! a) \<noteq> [] \<and> (\<exists>c. recursiveOne (h ! a) = Some c \<and> c < length h)
          \<and> (\<exists>c. recursiveTwo (h ! a) = Some c \<and> c < length h))"
  by (auto simp: cellOk_def split: option.splits)

lemma cellOk_others:
  assumes "cellOk h i" and "i < length h" and "length h \<le> length h'" and "h' ! i = h ! i"
    and "\<And>p. p < length h \<Longrightarrow> pointSet (h' ! p) = pointSet (h ! p)"
  shows "cellOk h' i"
proof (rule cellOk_transfer [OF assms(1,3)])
  show "pointSet (h' ! p) = pointSet (h ! p)" if "prevStep (h ! i) = Some p" for p
  proof -
    from cellOk_parent(1) [OF assms(1) that] assms(2) have "p < length h" by simp
    then show ?thesis by (rule assms(5))
  qed
qed (simp_all add: assms(4))

lemma unwindDone_terminates:
  assumes "\<forall>i < length h. cellOk h i" and "a < length h"
  shows "\<exists>h' a' b. unwindDone h a = Some (Inr (h', a', b))"
  using assms
proof (induction a arbitrary: h rule: less_induct)
  case (less a)
  show ?case
  proof (cases "progress (h ! a) = SDP_Done")
    case False
    with less.prems(2) show ?thesis by (subst unwindDone_unfold) auto
  next
    case fin: True
    show ?thesis
    proof (cases "prevStep (h ! a)")
      case None
      with less.prems(2) fin show ?thesis by (subst unwindDone_unfold) auto
    next
      case (Some p)
      let ?h1 = "h[a := released (h ! a)]"
      from less.prems have "cellOk h a" by simp
      from cellOk_parent(1) [OF this Some] have pa: "p < a" .
      have same: "sameCells h ?h1" using less.prems(2) fin by (rule sameCells_release)
      have ok1: "\<forall>i < length ?h1. cellOk ?h1 i"
      proof (intro allI impI)
        fix i assume "i < length ?h1"
        then have i: "i < length h" by simp
        with less.prems(1) have "cellOk h i" by simp
        then show "cellOk ?h1 i" using i same by (rule sameCells_cellOk)
      qed
      have "p < length ?h1" using pa less.prems(2) by simp
      from less.IH [OF pa ok1 this]
      show ?thesis using less.prems(2) fin Some by (subst unwindDone_unfold) simp
    qed
  qed
qed

text \<open>The three visits keep the invariant and lower the measure.\<close>

lemma visit_FirstIteration_ok:
  assumes ok: "\<forall>i < length (store q). cellOk (store q) i"
    and a: "a < length (store q)" and ne: "pointSet (store q ! a) \<noteq> []"
    and pr: "progress (store q ! a) = SDP_FirstIteration"
  shows "\<exists>q'. visit q a = Inr (True, q') \<and> wellFormed q'
              \<and> potential (store q') < potential (store q)"
proof -
  let ?h = "store q"
  let ?n = "(?h ! a)\<lparr>progress := SDP_RecurseTwo\<rparr>"
  from visit_FirstIteration [OF a ne pr] obtain q' where v: "visit q a = Inr (True, q')"
    and st: "store q' = ?h[a := ?n]" and nx: "nextStep q' = recursiveOne (?h ! a)"
    by blast
  from ok a have oka: "cellOk ?h a" by simp
  have len: "length (store q') = length ?h" by (simp add: st)
  have cur: "case nextStep q' of None \<Rightarrow> False | Some c \<Rightarrow> c < length (store q')"
    using oka pr by (auto simp: nx len cellOk_def split: option.splits)
  have pts: "pointSet (?h[a := ?n] ! p) = pointSet (?h ! p)" if "p < length ?h" for p
    using that by (cases "p = a") simp_all
  have cells: "cellOk (?h[a := ?n]) i" if i: "i < length ?h" for i
  proof (cases "i = a")
    case True
    from oka have par: "\<And>p. prevStep (?h ! a) = Some p \<Longrightarrow> p < a \<and> pointSet (?h ! p) \<noteq> []"
      and kids: "\<exists>c. recursiveTwo (?h ! a) = Some c \<and> c < length ?h"
      using pr by (simp_all add: cellOk_iff)
    have "cellOk (?h[a := ?n]) a"
      unfolding cellOk_iff using a ne par kids by (auto simp: pts)
    with True show ?thesis by simp
  next
    case False
    from ok i have oki: "cellOk ?h i" by simp
    from oki i show ?thesis
      by (rule cellOk_others) (use False pts in simp_all)
  qed
  have "weight ?n = 1" "weight (?h ! a) = 2" using pr by (simp_all add: weight_def)
  with potential_update [OF a, of ?n] have "potential (?h[a := ?n]) < potential ?h" by simp
  with v cur cells st show ?thesis by (auto simp: wellFormed_def)
qed

lemma visit_RecurseTwo_ok:
  assumes ok: "\<forall>i < length (store q). cellOk (store q) i"
    and a: "a < length (store q)" and ne: "pointSet (store q ! a) \<noteq> []"
    and pr: "progress (store q ! a) = SDP_RecurseTwo"
  shows "\<exists>q'. visit q a = Inr (True, q') \<and> wellFormed q'
              \<and> potential (store q') < potential (store q)"
proof -
  let ?h = "store q"
  let ?n = "(?h ! a)\<lparr>progress := SDP_Done\<rparr>"
  from visit_RecurseTwo [OF a ne pr] obtain q' where v: "visit q a = Inr (True, q')"
    and st: "store q' = ?h[a := ?n]" and nx: "nextStep q' = recursiveTwo (?h ! a)"
    by blast
  from ok a have oka: "cellOk ?h a" by simp
  have len: "length (store q') = length ?h" by (simp add: st)
  have cur: "case nextStep q' of None \<Rightarrow> False | Some c \<Rightarrow> c < length (store q')"
    using oka pr by (auto simp: nx len cellOk_def split: option.splits)
  have pts: "pointSet (?h[a := ?n] ! p) = pointSet (?h ! p)" if "p < length ?h" for p
    using that by (cases "p = a") simp_all
  have cells: "cellOk (?h[a := ?n]) i" if i: "i < length ?h" for i
  proof (cases "i = a")
    case True
    from oka have par: "\<And>p. prevStep (?h ! a) = Some p \<Longrightarrow> p < a \<and> pointSet (?h ! p) \<noteq> []"
      and kids: "\<exists>c. recursiveTwo (?h ! a) = Some c \<and> c < length ?h"
      using pr by (simp_all add: cellOk_iff)
    have "cellOk (?h[a := ?n]) a"
      unfolding cellOk_iff using a ne par kids by (auto simp: pts)
    with True show ?thesis by simp
  next
    case False
    from ok i have oki: "cellOk ?h i" by simp
    from oki i show ?thesis
      by (rule cellOk_others) (use False pts in simp_all)
  qed
  have "weight ?n = 0" "weight (?h ! a) = 1" using pr by (simp_all add: weight_def)
  with potential_update [OF a, of ?n] have "potential (?h[a := ?n]) < potential ?h" by simp
  with v cur cells st show ?thesis by (auto simp: wellFormed_def)
qed

lemma visit_RecurseOne_ok:
  assumes ok: "\<forall>i < length (store q). cellOk (store q) i"
    and a: "a < length (store q)" and ne: "pointSet (store q ! a) \<noteq> []"
    and pr: "progress (store q ! a) = SDP_RecurseOne"
  shows "\<exists>q'. visit q a = Inr (True, q') \<and> wellFormed q'
              \<and> potential (store q') < potential (store q)"
proof -
  let ?h = "store q"
  let ?len = "length ?h"
  let ?pts = "pointSet (?h ! a)"
  let ?n = "(?h ! a)\<lparr>recursiveOne := Some (?len + 1), recursiveTwo := Some ?len,
                      progress := SDP_RecurseTwo\<rparr>"
  from visit_RecurseOne [OF a ne pr] obtain f q' where f: "f \<in> set ?pts"
    and v: "visit q a = Inr (True, q')"
    and st: "store q' = ?h[a := ?n] @ [childCell a (segmentA (?h ! a)) f ?pts,
                                        childCell a f (segmentB (?h ! a)) ?pts]"
    and nx: "nextStep q' = Some (?len + 1)"
    by blast
  let ?l = "childCell a (segmentA (?h ! a)) f ?pts"
  let ?r = "childCell a f (segmentB (?h ! a)) ?pts"
  let ?h' = "?h[a := ?n] @ [?l, ?r]"
  have len': "length ?h' = ?len + 2" by simp
  have old: "?h' ! i = ?h ! i" if "i < ?len" "i \<noteq> a" for i
    using that by (simp add: nth_append)
  have self: "?h' ! a = ?n" using a by (simp add: nth_append)
  have left: "?h' ! ?len = ?l" by (simp add: nth_append)
  have right: "?h' ! (?len + 1) = ?r" by (simp add: nth_append)
  have pts: "pointSet (?h' ! p) = pointSet (?h ! p)" if "p < ?len" for p
    using that old [of p] self by (cases "p = a") simp_all
  from ok a have oka: "cellOk ?h a" by simp
  have cells: "cellOk ?h' i" if i: "i < ?len + 2" for i
  proof -
    consider "i < ?len" "i \<noteq> a" | "i = a" | "i = ?len" | "i = ?len + 1"
      using i by linarith
    then show ?thesis
    proof cases
      case 1
      from ok 1(1) have "cellOk ?h i" by simp
      then show ?thesis using 1(1)
        by (rule cellOk_others) (use old [OF 1] pts in simp_all)
    next
      case 2
      from oka have par: "\<And>p. prevStep (?h ! a) = Some p \<Longrightarrow> p < a \<and> pointSet (?h ! p) \<noteq> []"
        by (simp add: cellOk_iff)
      have "cellOk ?h' a"
        unfolding cellOk_iff self
      proof (intro conjI allI impI)
        fix p assume "prevStep ?n = Some p"
        then have p: "prevStep (?h ! a) = Some p" by simp
        from par [OF p] a have "p < ?len" by simp
        from pts [OF this] par [OF p]
        show "p < a" and "pointSet (?h' ! p) \<noteq> []" by simp_all
      qed (use ne in simp_all)
      with 2 show ?thesis by simp
    next
      case 3
      have "cellOk ?h' ?len"
        unfolding cellOk_iff left using a ne pts [OF a] by simp
      with 3 show ?thesis by simp
    next
      case 4
      have "cellOk ?h' (?len + 1)"
        unfolding cellOk_iff right using a ne pts [OF a] by simp
      with 4 show ?thesis by simp
    qed
  qed
  have wn: "weight ?n = 1" by (simp add: weight_def)
  have wa: "weight (?h ! a) = 3 * 3 ^ length ?pts" using pr by (simp add: weight_def)
  have wl: "weight ?l \<le> 3 ^ length ?pts" and wr: "weight ?r \<le> 3 ^ length ?pts"
    using childCell_weight [OF f] by simp_all
  have big: "(3::nat) \<le> 3 ^ length ?pts"
    using ne power_increasing [of 1 "length ?pts" "3::nat"] by (cases ?pts) simp_all
  have "potential ?h' = potential (?h[a := ?n]) + weight ?l + weight ?r"
    by (simp add: potential_append) (simp add: potential_def)
  moreover from potential_update [OF a, of ?n]
  have "potential (?h[a := ?n]) + 3 * 3 ^ length ?pts = potential ?h + 1"
    by (simp only: wn wa)
  ultimately have "potential ?h' < potential ?h"
    using wl wr big by linarith
  moreover have "wellFormed q'"
    unfolding wellFormed_def st nx using cells by (simp del: list_update.simps)
  ultimately show ?thesis using v st by auto
qed

lemma visit_ok:
  assumes ok: "\<forall>i < length (store q). cellOk (store q) i"
    and a: "a < length (store q)" and ne: "pointSet (store q ! a) \<noteq> []"
    and pr: "progress (store q ! a) \<noteq> SDP_Done"
  shows "\<exists>q'. visit q a = Inr (True, q') \<and> wellFormed q'
              \<and> potential (store q') < potential (store q)"
proof (cases "progress (store q ! a)")
  case SDP_RecurseOne
  with ok a ne show ?thesis by (rule visit_RecurseOne_ok)
next
  case SDP_RecurseTwo
  with ok a ne show ?thesis by (rule visit_RecurseTwo_ok)
next
  case SDP_Done
  with pr show ?thesis by simp
next
  case SDP_FirstIteration
  with ok a ne show ?thesis by (rule visit_FirstIteration_ok)
qed

text \<open>One call of \<open>step\<close> on a well-formed object.\<close>

lemma step_wellFormed:
  assumes "wellFormed q"
  shows "\<exists>b q'. step q = Some (Inr (b, q')) \<and> wellFormed q'
           \<and> (b \<longrightarrow> potential (store q') < potential (store q))"
proof -
  let ?h0 = "store q"
  from assms obtain a where cur: "nextStep q = Some a" and a: "a < length ?h0"
    by (auto simp: wellFormed_def split: option.splits)
  from assms have ok0: "\<forall>i < length ?h0. cellOk ?h0 i" by (simp add: wellFormed_def)
  let ?h1 = "markEmpty ?h0 a"
  have ok1: "\<forall>i < length ?h1. cellOk ?h1 i"
    using ok0 by (simp add: markEmpty_cellOk)
  have a1: "a < length ?h1" using a by simp
  from unwindDone_terminates [OF ok1 a1] obtain h2 a2 b
    where u: "unwindDone ?h1 a = Some (Inr (h2, a2, b))" by blast
  from unwindDone_result [OF u] have same: "sameCells ?h1 h2" and a2: "a2 < length ?h1"
    and stop: "if b then progress (h2 ! a2) \<noteq> SDP_Done
         else progress (h2 ! a2) = SDP_Done \<and> prevStep (h2 ! a2) = None
              \<and> recursiveOne (h2 ! a2) = None \<and> recursiveTwo (h2 ! a2) = None"
    and link: "a2 = a \<or> (\<exists>c < length ?h1. prevStep (?h1 ! c) = Some a2)"
    by (simp_all add: stopsAt_def)
  have len2: "length h2 = length ?h0" using same by (simp add: sameCells_length)
  have ok2: "\<forall>i < length h2. cellOk h2 i"
  proof (intro allI impI)
    fix i assume "i < length h2"
    then have i: "i < length ?h1" by (simp add: len2)
    with ok1 have "cellOk ?h1 i" by simp
    then show "cellOk h2 i" using i same by (rule sameCells_cellOk)
  qed
  have pot2: "potential h2 \<le> potential ?h0"
    using sameCells_potential [OF same] markEmpty_potential [OF a] by simp
  let ?q2 = "q\<lparr>store := h2, nextStep := Some a2\<rparr>"
  show ?thesis
  proof (cases b)
    case False
    then have "step q = Some (Inr (False, ?q2))"
      using cur a u by (simp add: step_def)
    moreover have "wellFormed ?q2"
      using ok2 a2 by (simp add: wellFormed_def len2)
    ultimately show ?thesis by blast
  next
    case True
    with stop have live: "progress (h2 ! a2) \<noteq> SDP_Done" by simp
    have pr2: "progress (h2 ! a2) = progress (?h1 ! a2)"
      using same a2 by (rule sameCells_fields)
    have ps2: "pointSet (h2 ! a2) = pointSet (?h0 ! a2)"
      using sameCells_fields(1) [OF same a2] a2 by (simp add: markEmpty_nth)
    have ne: "pointSet (h2 ! a2) \<noteq> []"
      using link
    proof
      assume eq: "a2 = a"
      with live pr2 a have "pointSet (?h0 ! a) \<noteq> []"
        by (auto simp: markEmpty_nth)
      with ps2 eq show ?thesis by simp
    next
      assume "\<exists>c < length ?h1. prevStep (?h1 ! c) = Some a2"
      then obtain c where c: "c < length ?h1" "prevStep (?h1 ! c) = Some a2" by blast
      with ok1 have "cellOk ?h1 c" by simp
      from cellOk_parent(2) [OF this c(2)] a2 have "pointSet (?h0 ! a2) \<noteq> []"
        by (simp add: markEmpty_nth)
      with ps2 show ?thesis by simp
    qed
    have "\<exists>q'. visit ?q2 a2 = Inr (True, q') \<and> wellFormed q'
              \<and> potential (store q') < potential (store ?q2)"
      by (rule visit_ok) (use ok2 a2 ne live len2 in simp_all)
    then obtain q' where v: "visit ?q2 a2 = Inr (True, q')" and wf: "wellFormed q'"
      and pot: "potential (store q') < potential h2" by auto
    have "step q = Some (Inr (True, q'))"
      using cur a u True v by (simp add: step_def)
    with wf pot pot2 show ?thesis by auto
  qed
qed

subsection \<open>The whole run\<close>

lemma randomizeInputWith_start:
  assumes "generated \<noteq> []"
  shows "\<exists>q0. randomizeInputWith generated q = Inr q0
          \<and> store q0 = [rootCell (sortPoints generated),
                         childCell 0 (hd (sortPoints generated)) (last (sortPoints generated))
                           (sortPoints generated),
                         childCell 0 (last (sortPoints generated)) (hd (sortPoints generated))
                           (sortPoints generated)]
          \<and> hullPoints q0 = [hd (sortPoints generated), last (sortPoints generated)]
          \<and> nextStep q0 = Some 0
          \<and> basePointList q0 = sortPoints generated"
  using assms
  by (simp add: randomizeInputWith_def Let_def prepareNextRecursion_eq rootCell_def
      emptyStepData_def)

lemma randomizeInputWith_wellFormed:
  assumes "randomizeInputWith generated q = Inr q0"
  shows "wellFormed q0"
proof -
  have ne: "generated \<noteq> []"
    using assms by (auto simp: randomizeInputWith_def Let_def split: if_splits)
  from randomizeInputWith_start [OF ne, of q] assms
  have st: "store q0 = [rootCell (sortPoints generated),
                         childCell 0 (hd (sortPoints generated)) (last (sortPoints generated))
                           (sortPoints generated),
                         childCell 0 (last (sortPoints generated)) (hd (sortPoints generated))
                           (sortPoints generated)]"
    and nx: "nextStep q0 = Some 0"
    by auto
  have "cellOk (store q0) i" if "i < 3" for i
  proof -
    from that consider "i = 0" | "i = 1" | "i = 2" by linarith
    then show ?thesis
      using ne by cases (simp_all add: cellOk_iff st rootCell_def)
  qed
  then show ?thesis by (simp add: wellFormed_def nx) (simp add: st)
qed

lemma runSteps_terminates:
  assumes "wellFormed q"
  shows "\<exists>n q1 qf. afterSteps n q = Some q1 \<and> step q1 = Some (Inr (False, qf))
           \<and> runSteps q = Some (Inr qf)"
  using assms
proof (induction "potential (store q)" arbitrary: q rule: less_induct)
  case less
  from step_wellFormed [OF less.prems] obtain b q' where s: "step q = Some (Inr (b, q'))"
    and wf: "wellFormed q'" and pot: "b \<longrightarrow> potential (store q') < potential (store q)"
    by blast
  show ?case
  proof (cases b)
    case False
    have "afterSteps 0 q = Some q" by simp
    moreover have "step q = Some (Inr (False, q'))" using s False by simp
    moreover have "runSteps q = Some (Inr q')"
      using s False by (subst runSteps.simps) simp
    ultimately show ?thesis by blast
  next
    case True
    with pot have "potential (store q') < potential (store q)" by simp
    from less.hyps [OF this wf] obtain n q1 qf where r: "afterSteps n q' = Some q1"
      "step q1 = Some (Inr (False, qf))" "runSteps q' = Some (Inr qf)"
      by blast
    have "afterSteps (Suc n) q = Some q1" using s r(1) by simp
    moreover have "runSteps q = Some (Inr qf)"
      using s True r(3) by (subst runSteps.simps) simp
    ultimately show ?thesis using r(2) by blast
  qed
qed

text \<open>The computation on the three points, evaluated.\<close>

lemma ex_start: "randomizeInputWith examplePoints newQuickHull = Inr exampleStart"
  by code_simp

lemma ex4: "afterSteps 4 exampleStart = Some (exampleAfter 4)"
  by code_simp

lemma ex5: "step (exampleAfter 4) = Some (Inr (False, exampleAfter 5))"
  by code_simp

lemma ex6: "runSteps exampleStart = Some (Inr (exampleAfter 5))"
  by code_simp

subsection \<open>Single calls and the store\<close>

lemma visit_nonempty:
  assumes "visit q a = Inr (b, q')"
  shows "pointSet (store q ! a) \<noteq> []"
  using assms by (auto simp: visit_def Let_def split: if_splits)

lemma visit_effect:
  assumes v: "visit q a = Inr (b, q')" and a: "a < length (store q)"
  shows "b \<and> pointSet (store q ! a) \<noteq> [] \<and> basePointList q' = basePointList q
    \<and> (case progress (store q ! a) of
          SDP_RecurseOne \<Rightarrow>
            (\<exists>f. calculateFurthestPoint (segmentA (store q ! a)) (segmentB (store q ! a))
                     (pointSet (store q ! a)) = Inr f
                \<and> f \<in> set (pointSet (store q ! a))
                \<and> store q' =
                    (store q)[a := (store q ! a)\<lparr>recursiveOne := Some (length (store q) + 1),
                                                 recursiveTwo := Some (length (store q)),
                                                 progress := SDP_RecurseTwo\<rparr>]
                    @ [childCell a (segmentA (store q ! a)) f (pointSet (store q ! a)),
                       childCell a f (segmentB (store q ! a)) (pointSet (store q ! a))]
                \<and> hullPoints q' = hullPoints q @ [f]
                \<and> nextStep q' = Some (length (store q) + 1))
        | SDP_RecurseTwo \<Rightarrow>
            store q' = (store q)[a := (store q ! a)\<lparr>progress := SDP_Done\<rparr>]
            \<and> hullPoints q' = hullPoints q \<and> nextStep q' = recursiveTwo (store q ! a)
        | SDP_Done \<Rightarrow>
            store q' = store q \<and> hullPoints q' = hullPoints q \<and> nextStep q' = nextStep q
        | SDP_FirstIteration \<Rightarrow>
            store q' = (store q)[a := (store q ! a)\<lparr>progress := SDP_RecurseTwo\<rparr>]
            \<and> hullPoints q' = hullPoints q \<and> nextStep q' = recursiveOne (store q ! a))"
proof -
  from v have b: b by (rule visit_returns_True)
  from v have ne: "pointSet (store q ! a) \<noteq> []" by (rule visit_nonempty)
  show ?thesis
  proof (cases "progress (store q ! a)")
    case SDP_RecurseOne
    from visit_RecurseOne [OF a ne SDP_RecurseOne] v b ne SDP_RecurseOne
    show ?thesis by auto
  next
    case SDP_RecurseTwo
    from visit_RecurseTwo [OF a ne SDP_RecurseTwo] v b ne SDP_RecurseTwo
    show ?thesis by auto
  next
    case SDP_Done
    from calculateFurthestPoint_member [OF ne]
    obtain f where "calculateFurthestPoint (segmentA (store q ! a)) (segmentB (store q ! a))
                   (pointSet (store q ! a)) = Inr f" by blast
    with v b ne SDP_Done show ?thesis by (auto simp: visit_def Let_def)
  next
    case SDP_FirstIteration
    from visit_FirstIteration [OF a ne SDP_FirstIteration] v b ne SDP_FirstIteration
    show ?thesis by auto
  qed
qed

text \<open>At a cursor whose cell is neither empty nor done, a call is the visit alone.\<close>

lemma step_live:
  assumes "nextStep q = Some a" and "a < length (store q)"
    and "pointSet (store q ! a) \<noteq> []" and "progress (store q ! a) \<noteq> SDP_Done"
  shows "step q = Some (visit q a)"
proof -
  have m: "markEmpty (store q) a = store q" using assms(3) by (simp add: markEmpty_def)
  have u: "unwindDone (store q) a = Some (Inr (store q, a, True))"
    using assms(2,4) by (subst unwindDone_unfold) simp
  have e: "q\<lparr>nextStep := Some a\<rparr> = q" using assms(1) by (cases q) simp
  have "step q = Some (visit (q\<lparr>nextStep := Some a\<rparr>) a)"
    using assms(1,2) m u by (simp add: step_def)
  then show ?thesis by (simp only: e)
qed

subsection \<open>How a call changes the store\<close>

lemma childCell_clean: "\<not> holdsEndpoint (childCell a A B pts)"
  by (auto simp: holdsEndpoint_def calcPointsOnRightSide_filter)

lemma childOk_kept:
  assumes "childOk h i" and "i < length h"
    and "\<And>j. j < length h \<Longrightarrow>
           pointSet (h' ! j) = pointSet (h ! j) \<and> prevStep (h' ! j) = prevStep (h ! j)
           \<and> segmentA (h' ! j) = segmentA (h ! j) \<and> segmentB (h' ! j) = segmentB (h ! j)"
  shows "childOk h' i"
proof -
  from assms(1) obtain p where p: "p < i" "prevStep (h ! i) = Some p"
    "length (pointSet (h ! i)) < length (pointSet (h ! p))"
    and clean: "\<not> holdsEndpoint (h ! i)"
    by (auto simp: childOk_def)
  from p(1) assms(2) have "p < length h" by simp
  from assms(3) [OF this] assms(3) [OF assms(2)] p clean show ?thesis
    by (auto simp: childOk_def holdsEndpoint_def)
qed

lemma childOk_parent:
  assumes "childOk h a"
  shows "prevStep (h ! a) \<noteq> None" and "\<not> holdsEndpoint (h ! a)"
    and "\<And>p. prevStep (h ! a) = Some p \<Longrightarrow>
           p < a \<and> length (pointSet (h ! a)) < length (pointSet (h ! p))"
  using assms by (auto simp: childOk_def)

lemma childCell_childOk:
  assumes "h ! i = childCell a A B pts" and "a < i" and "pointSet (h ! a) = pts"
    and "A \<in> set pts \<or> B \<in> set pts"
  shows "childOk h i"
proof -
  have "length (calcPointsOnRightSide A B pts) < length pts"
    using assms(4) calcPointsOnRightSide_shorter(2) [of A pts B]
      calcPointsOnRightSide_shorter(1) [of B pts A]
    by blast
  then show ?thesis
    using assms(1,2,3) by (auto simp: childOk_def childCell_clean)
qed

lemma grows_refl: "grows h h"
  by (simp add: grows_def)

lemma grows_trans:
  assumes "grows h h1" "grows h1 h2"
  shows "grows h h2"
  unfolding grows_def
proof (intro conjI allI impI)
  show "length h \<le> length h2" using assms by (simp add: grows_def)
next
  fix i assume i: "i < length h"
  with assms(1) have i1: "i < length h1" by (simp add: grows_def)
  from assms(1) i have "pointSet (h1 ! i) = pointSet (h ! i) \<and> prevStep (h1 ! i) = prevStep (h ! i)
           \<and> segmentA (h1 ! i) = segmentA (h ! i) \<and> segmentB (h1 ! i) = segmentB (h ! i)"
    by (simp add: grows_def)
  moreover from assms(2) i1 have "pointSet (h2 ! i) = pointSet (h1 ! i) \<and> prevStep (h2 ! i) = prevStep (h1 ! i)
           \<and> segmentA (h2 ! i) = segmentA (h1 ! i) \<and> segmentB (h2 ! i) = segmentB (h1 ! i)"
    by (simp add: grows_def)
  ultimately show "pointSet (h2 ! i) = pointSet (h ! i)" "prevStep (h2 ! i) = prevStep (h ! i)"
    "segmentA (h2 ! i) = segmentA (h ! i)" "segmentB (h2 ! i) = segmentB (h ! i)"
    by simp_all
next
  fix i assume i: "i < length h2" "length h \<le> i"
  show "childOk h2 i"
  proof (cases "i < length h1")
    case True
    with assms(1) i(2) have c: "childOk h1 i" by (simp add: grows_def)
    from assms(2) have "\<And>j. j < length h1 \<Longrightarrow>
           pointSet (h2 ! j) = pointSet (h1 ! j) \<and> prevStep (h2 ! j) = prevStep (h1 ! j)
           \<and> segmentA (h2 ! j) = segmentA (h1 ! j) \<and> segmentB (h2 ! j) = segmentB (h1 ! j)"
      by (simp add: grows_def)
    with c True show ?thesis by (rule childOk_kept)
  next
    case False
    with assms(2) i(1) show ?thesis by (simp add: grows_def)
  qed
qed

lemma grows_same_fields:
  assumes "length h' = length h"
    and "\<And>i. i < length h \<Longrightarrow>
           pointSet (h' ! i) = pointSet (h ! i) \<and> prevStep (h' ! i) = prevStep (h ! i)
           \<and> segmentA (h' ! i) = segmentA (h ! i) \<and> segmentB (h' ! i) = segmentB (h ! i)"
  shows "grows h h'"
  using assms by (simp add: grows_def)

lemma markEmpty_grows: "grows h (markEmpty h a)"
  by (rule grows_same_fields) (simp_all add: markEmpty_nth)

lemma sameCells_grows:
  assumes "sameCells h h'"
  shows "grows h h'"
  by (rule grows_same_fields) (simp_all add: sameCells_length [OF assms] sameCells_fields [OF assms])

lemma update_progress_grows: "grows h (h[a := (h ! a)\<lparr>progress := p\<rparr>])"
proof (rule grows_same_fields)
  fix i assume "i < length h"
  then show "pointSet (h[a := (h ! a)\<lparr>progress := p\<rparr>] ! i) = pointSet (h ! i)
     \<and> prevStep (h[a := (h ! a)\<lparr>progress := p\<rparr>] ! i) = prevStep (h ! i)
     \<and> segmentA (h[a := (h ! a)\<lparr>progress := p\<rparr>] ! i) = segmentA (h ! i)
     \<and> segmentB (h[a := (h ! a)\<lparr>progress := p\<rparr>] ! i) = segmentB (h ! i)"
    by (cases "i = a") simp_all
qed simp

lemma visit_grows:
  assumes v: "visit q a = Inr (b, q')" and a: "a < length (store q)"
  shows "grows (store q) (store q')"
proof (cases "progress (store q ! a)")
  case SDP_RecurseOne
  let ?h = "store q"
  define n where "n = (?h ! a)\<lparr>recursiveOne := Some (length ?h + 1),
                               recursiveTwo := Some (length ?h), progress := SDP_RecurseTwo\<rparr>"
  from v have ne: "pointSet (?h ! a) \<noteq> []" by (rule visit_nonempty)
  from visit_RecurseOne [OF a ne SDP_RecurseOne] v obtain f where
    fin: "f \<in> set (pointSet (?h ! a))" and
    st0: "store q' = ?h[a := n] @ [childCell a (segmentA (?h ! a)) f (pointSet (?h ! a)),
                                   childCell a f (segmentB (?h ! a)) (pointSet (?h ! a))]"
    unfolding n_def by auto
  define l where "l = childCell a (segmentA (?h ! a)) f (pointSet (?h ! a))"
  define r where "r = childCell a f (segmentB (?h ! a)) (pointSet (?h ! a))"
  have st: "store q' = ?h[a := n] @ [l, r]" using st0 by (simp add: l_def r_def)
  have n: "pointSet n = pointSet (?h ! a)" "prevStep n = prevStep (?h ! a)"
    "segmentA n = segmentA (?h ! a)" "segmentB n = segmentB (?h ! a)"
    by (simp_all add: n_def)
  have old: "pointSet ((?h[a := n] @ [l, r]) ! i) = pointSet (?h ! i)
     \<and> prevStep ((?h[a := n] @ [l, r]) ! i) = prevStep (?h ! i)
     \<and> segmentA ((?h[a := n] @ [l, r]) ! i) = segmentA (?h ! i)
     \<and> segmentB ((?h[a := n] @ [l, r]) ! i) = segmentB (?h ! i)" if "i < length ?h" for i
    using that n by (cases "i = a") (simp_all add: nth_append)
  show ?thesis
    unfolding grows_def st
  proof (intro conjI allI impI)
    fix i assume i: "i < length (?h[a := n] @ [l, r])" "length ?h \<le> i"
    then consider "i = length ?h" | "i = length ?h + 1" by fastforce
    then have cell: "(?h[a := n] @ [l, r]) ! i = l \<or> (?h[a := n] @ [l, r]) ! i = r"
      by cases (simp_all add: nth_append)
    have par: "pointSet ((?h[a := n] @ [l, r]) ! a) = pointSet (?h ! a)"
      using old [OF a] by simp
    from cell show "childOk (?h[a := n] @ [l, r]) i"
    proof
      assume "(?h[a := n] @ [l, r]) ! i = l"
      then have "(?h[a := n] @ [l, r]) ! i
                   = childCell a (segmentA (?h ! a)) f (pointSet (?h ! a))"
        by (simp add: l_def)
      then show ?thesis
        by (rule childCell_childOk) (use a i(2) par fin in simp_all)
    next
      assume "(?h[a := n] @ [l, r]) ! i = r"
      then have "(?h[a := n] @ [l, r]) ! i
                   = childCell a f (segmentB (?h ! a)) (pointSet (?h ! a))"
        by (simp add: r_def)
      then show ?thesis
        by (rule childCell_childOk) (use a i(2) par fin in simp_all)
    qed
  qed (simp_all add: old)
next
  case SDP_RecurseTwo
  with visit_effect [OF v a] show ?thesis by (simp add: update_progress_grows)
next
  case SDP_Done
  with visit_effect [OF v a] show ?thesis by (simp add: grows_refl)
next
  case SDP_FirstIteration
  with visit_effect [OF v a] show ?thesis by (simp add: update_progress_grows)
qed

lemma step_grows:
  assumes "step q = Some (Inr (b, q'))"
  shows "grows (store q) (store q')"
proof -
  from assms obtain a h a' where a: "a < length (store q)"
    and u: "unwindDone (markEmpty (store q) a) a = Some (Inr (h, a', b))"
    and r: "if b then visit (q\<lparr>store := h, nextStep := Some a'\<rparr>) a' = Inr (True, q')
            else q' = q\<lparr>store := h, nextStep := Some a'\<rparr>"
    by (rule step_cases)
  from unwindDone_result [OF u] have same: "sameCells (markEmpty (store q) a) h"
    and "a' < length (markEmpty (store q) a)"
    by (simp_all add: stopsAt_def)
  then have a': "a' < length h" by (simp add: sameCells_length)
  have g1: "grows (store q) h"
    using markEmpty_grows sameCells_grows [OF same] by (rule grows_trans)
  show ?thesis
  proof (cases b)
    case True
    with r have "visit (q\<lparr>store := h, nextStep := Some a'\<rparr>) a' = Inr (True, q')" by simp
    from visit_grows [OF this] a' have "grows h (store q')" by simp
    with g1 show ?thesis by (rule grows_trans)
  next
    case False
    with r g1 show ?thesis by simp
  qed
qed

lemma afterSteps_grows:
  assumes "afterSteps n q = Some q'"
  shows "grows (store q) (store q')"
  using assms
proof (induction n arbitrary: q)
  case 0
  then show ?case by (simp add: grows_refl)
next
  case (Suc n)
  from Suc.prems obtain b q1 where s: "step q = Some (Inr (b, q1))"
    and r: "afterSteps n q1 = Some q'"
    by (auto split: option.splits sum.splits)
  from step_grows [OF s] Suc.IH [OF r] show ?case by (rule grows_trans)
qed

lemma grows_clean:
  assumes "grows h h'" and "childrenClean h" and "rootHoldsBoth h"
  shows "childrenClean h'" and "rootHoldsBoth h'"
proof -
  from assms(3) have ne: "0 < length h" by (simp add: rootHoldsBoth_def)
  from assms(1) have len: "length h \<le> length h'"
    and old: "\<And>i. i < length h \<Longrightarrow>
           pointSet (h' ! i) = pointSet (h ! i) \<and> prevStep (h' ! i) = prevStep (h ! i)
           \<and> segmentA (h' ! i) = segmentA (h ! i) \<and> segmentB (h' ! i) = segmentB (h ! i)"
    and new: "\<And>i. i < length h' \<Longrightarrow> length h \<le> i \<Longrightarrow> childOk h' i"
    by (simp_all add: grows_def)
  show "childrenClean h'"
    unfolding childrenClean_def
  proof (intro allI impI)
    fix i assume i: "i < length h'" "0 < i"
    show "childOk h' i"
    proof (cases "i < length h")
      case True
      with i(2) assms(2) have "childOk h i" by (simp add: childrenClean_def)
      then show ?thesis using True old by (rule childOk_kept)
    next
      case False
      with new [OF i(1)] show ?thesis by simp
    qed
  qed
  from old [OF ne] assms(3) len ne show "rootHoldsBoth h'"
    by (auto simp: rootHoldsBoth_def)
qed

lemma randomizeInputWith_clean:
  assumes "randomizeInputWith generated q = Inr q0"
  shows "childrenClean (store q0)" and "rootHoldsBoth (store q0)"
proof -
  have ne: "generated \<noteq> []"
    using assms by (auto simp: randomizeInputWith_def Let_def split: if_splits)
  let ?base = "sortPoints generated"
  from randomizeInputWith_start [OF ne, of q] assms
  have st: "store q0 = [rootCell ?base, childCell 0 (hd ?base) (last ?base) ?base,
                         childCell 0 (last ?base) (hd ?base) ?base]"
    by auto
  have base: "?base \<noteq> []" using ne by simp
  then have ends: "hd ?base \<in> set ?base" "last ?base \<in> set ?base"
    using hd_in_set [of ?base] last_in_set [of ?base] by blast+
  have "childOk (store q0) i" if "i < 3" "0 < i" for i
  proof -
    from that consider "i = 1" | "i = 2" by linarith
    then show ?thesis
    proof cases
      case 1
      have "store q0 ! i = childCell 0 (hd ?base) (last ?base) ?base" by (simp add: st 1)
      then show ?thesis
        by (rule childCell_childOk) (use 1 ends in \<open>simp_all add: st rootCell_def\<close>)
    next
      case 2
      have "store q0 ! i = childCell 0 (last ?base) (hd ?base) ?base" by (simp add: st 2)
      then show ?thesis
        by (rule childCell_childOk) (use 2 ends in \<open>simp_all add: st rootCell_def\<close>)
    qed
  qed
  then show "childrenClean (store q0)" by (simp add: childrenClean_def) (simp add: st)
  from ends show "rootHoldsBoth (store q0)"
    unfolding rootHoldsBoth_def st rootCell_def by (auto simp: comparePoints_eq simp del: sortPoints_set)
qed

lemma afterSteps_Suc:
  assumes "afterSteps n q = Some q1" and "step q1 = Some (Inr (b, q2))"
  shows "afterSteps (Suc n) q = Some q2"
  using assms(1)
proof (induction n arbitrary: q)
  case 0
  then have "q = q1" by simp
  with assms(2) show ?case by simp
next
  case (Suc n)
  from Suc.prems obtain c q' where s: "step q = Some (Inr (c, q'))"
    and r: "afterSteps n q' = Some q1"
    by (auto split: option.splits sum.splits)
  from Suc.IH [OF r] have "afterSteps (Suc n) q' = Some q2" .
  then show ?case using s by (simp del: afterSteps.simps add: afterSteps.simps(2) [of "Suc n"])
qed

lemma afterSteps_clean:
  assumes "randomizeInputWith generated q = Inr q0" and "afterSteps n q0 = Some q'"
  shows "childrenClean (store q')" and "rootHoldsBoth (store q')"
  using afterSteps_grows [OF assms(2)] randomizeInputWith_clean [OF assms(1)]
  by (simp_all add: grows_clean)

lemma ex3: "afterSteps 3 exampleStart = Some (exampleAfter 3)"
  by code_simp

lemma visit_progress:
  assumes v: "visit q a = Inr (b, q')" and a: "a < length (store q)"
    and live: "progress (store q ! a) \<noteq> SDP_Done"
  shows "progress (store q' ! a) =
           (if progress (store q ! a) = SDP_RecurseTwo then SDP_Done else SDP_RecurseTwo)"
    and "\<And>i. i < length (store q) \<Longrightarrow> i \<noteq> a \<Longrightarrow> store q' ! i = store q ! i"
    and "length (store q) \<le> length (store q')"
proof -
  let ?h = "store q"
  have all: "progress (store q' ! a) =
           (if progress (?h ! a) = SDP_RecurseTwo then SDP_Done else SDP_RecurseTwo)
        \<and> (\<forall>i < length ?h. i \<noteq> a \<longrightarrow> store q' ! i = ?h ! i)
        \<and> length ?h \<le> length (store q')"
  proof (cases "progress (?h ! a)")
    case SDP_RecurseOne
    with visit_effect [OF v a] a show ?thesis by (auto simp: nth_append)
  next
    case SDP_RecurseTwo
    with visit_effect [OF v a] a show ?thesis by auto
  next
    case SDP_Done
    with live show ?thesis by simp
  next
    case SDP_FirstIteration
    with visit_effect [OF v a] a show ?thesis by auto
  qed
  then show "progress (store q' ! a) =
           (if progress (store q ! a) = SDP_RecurseTwo then SDP_Done else SDP_RecurseTwo)"
    and "\<And>i. i < length (store q) \<Longrightarrow> i \<noteq> a \<Longrightarrow> store q' ! i = store q ! i"
    and "length (store q) \<le> length (store q')"
    by simp_all
qed

lemma ex1: "step (exampleAfter 1) = Some (Inr (True, exampleAfter 2))"
  by code_simp

text \<open>The effect of a call at a cursor whose cell is not empty and not yet visited.\<close>

lemma step_RecurseOne:
  assumes cur: "nextStep q = Some a" and a: "a < length (store q)"
    and ne: "pointSet (store q ! a) \<noteq> []" and pr: "progress (store q ! a) = SDP_RecurseOne"
  shows "\<exists>f q'. calculateFurthestPoint (segmentA (store q ! a)) (segmentB (store q ! a))
                   (pointSet (store q ! a)) = Inr f
          \<and> f \<in> set (pointSet (store q ! a))
          \<and> step q = Some (Inr (True, q'))
          \<and> length (store q') = length (store q) + 2
          \<and> store q' ! length (store q) =
               childCell a (segmentA (store q ! a)) f (pointSet (store q ! a))
          \<and> store q' ! (length (store q) + 1) =
               childCell a f (segmentB (store q ! a)) (pointSet (store q ! a))
          \<and> recursiveOne (store q' ! a) = Some (length (store q) + 1)
          \<and> recursiveTwo (store q' ! a) = Some (length (store q))
          \<and> progress (store q' ! a) = SDP_RecurseTwo
          \<and> hullPoints q' = hullPoints q @ [f]
          \<and> nextStep q' = Some (length (store q) + 1)"
proof -
  from pr have live: "progress (store q ! a) \<noteq> SDP_Done" by simp
  from visit_RecurseOne [OF a ne pr] obtain f q' where
    f: "calculateFurthestPoint (segmentA (store q ! a)) (segmentB (store q ! a))
                   (pointSet (store q ! a)) = Inr f" "f \<in> set (pointSet (store q ! a))"
    and v: "visit q a = Inr (True, q')"
    and st: "store q' =
               (store q)[a := (store q ! a)\<lparr>recursiveOne := Some (length (store q) + 1),
                                             recursiveTwo := Some (length (store q)),
                                             progress := SDP_RecurseTwo\<rparr>]
               @ [childCell a (segmentA (store q ! a)) f (pointSet (store q ! a)),
                  childCell a f (segmentB (store q ! a)) (pointSet (store q ! a))]"
    and hp: "hullPoints q' = hullPoints q @ [f]"
    and nx: "nextStep q' = Some (length (store q) + 1)"
    by blast
  have s: "step q = Some (Inr (True, q'))"
    using step_live [OF cur a ne live] v by simp
  have c: "length (store q') = length (store q) + 2"
    "store q' ! length (store q) = childCell a (segmentA (store q ! a)) f (pointSet (store q ! a))"
    "store q' ! (length (store q) + 1) = childCell a f (segmentB (store q ! a)) (pointSet (store q ! a))"
    "recursiveOne (store q' ! a) = Some (length (store q) + 1)"
    "recursiveTwo (store q' ! a) = Some (length (store q))"
    "progress (store q' ! a) = SDP_RecurseTwo"
    using a by (simp_all add: st nth_append)
  from f s c hp nx show ?thesis by blast
qed

lemma step_FirstIteration:
  assumes cur: "nextStep q = Some a" and a: "a < length (store q)"
    and ne: "pointSet (store q ! a) \<noteq> []"
    and pr: "progress (store q ! a) = SDP_FirstIteration"
  shows "\<exists>q'. step q = Some (Inr (True, q'))
          \<and> store q' = (store q)[a := (store q ! a)\<lparr>progress := SDP_RecurseTwo\<rparr>]
          \<and> hullPoints q' = hullPoints q
          \<and> nextStep q' = recursiveOne (store q ! a)"
proof -
  from pr have live: "progress (store q ! a) \<noteq> SDP_Done" by simp
  from visit_FirstIteration [OF a ne pr] step_live [OF cur a ne live]
  show ?thesis by auto
qed

lemma step_hull:
  assumes "step q = Some (Inr (b, q'))"
  shows "hullPoints q' = hullPoints q \<and> length (store q') = length (store q)
         \<or> (\<exists>f. hullPoints q' = hullPoints q @ [f]) \<and> length (store q') = length (store q) + 2"
proof -
  from assms obtain a h a' where a: "a < length (store q)"
    and u: "unwindDone (markEmpty (store q) a) a = Some (Inr (h, a', b))"
    and r: "if b then visit (q\<lparr>store := h, nextStep := Some a'\<rparr>) a' = Inr (True, q')
            else q' = q\<lparr>store := h, nextStep := Some a'\<rparr>"
    by (rule step_cases)
  from unwindDone_result [OF u] have "sameCells (markEmpty (store q) a) h"
    and "a' < length (markEmpty (store q) a)"
    by (simp_all add: stopsAt_def)
  then have len: "length h = length (store q)" and a': "a' < length h"
    by (simp_all add: sameCells_length)
  show ?thesis
  proof (cases b)
    case False
    with r len show ?thesis by simp
  next
    case True
    let ?q2 = "q\<lparr>store := h, nextStep := Some a'\<rparr>"
    from True r have v: "visit ?q2 a' = Inr (True, q')" by simp
    have a'2: "a' < length (store ?q2)" using a' by simp
    from visit_effect [OF v a'2] len show ?thesis
      by (cases "progress (h ! a')") auto
  qed
qed

lemma ex0: "step exampleStart = Some (Inr (True, exampleAfter 1))"
  by code_simp

lemma ex2: "step (exampleAfter 2) = Some (Inr (True, exampleAfter 3))"
  by code_simp

lemma ex2_cursor:
  "nextStep (exampleAfter 2) = Some 1 \<and> 1 < length (store (exampleAfter 2))
   \<and> pointSet (store (exampleAfter 2) ! 1) \<noteq> []
   \<and> progress (store (exampleAfter 2) ! 1) = SDP_RecurseOne"
  by code_simp

lemma ex0_cursor:
  "nextStep exampleStart = Some 0 \<and> 0 < length (store exampleStart)
   \<and> pointSet (store exampleStart ! 0) \<noteq> []
   \<and> progress (store exampleStart ! 0) = SDP_FirstIteration"
  by code_simp

lemma step_second_visit:
  assumes cur: "nextStep q = Some c" and c: "c < length (store q)"
    and u: "unwindDone (markEmpty (store q) c) c = Some (Inr (h, a, True))"
    and pr: "progress (h ! a) = SDP_RecurseTwo" and ne: "pointSet (store q ! a) \<noteq> []"
  shows "\<exists>q'. step q = Some (Inr (True, q')) \<and> nextStep q' = recursiveTwo (store q ! a)
           \<and> progress (store q' ! a) = SDP_Done"
proof -
  let ?h1 = "markEmpty (store q) c"
  from unwindDone_result [OF u] have same: "sameCells ?h1 h" and a1: "a < length ?h1"
    by (simp_all add: stopsAt_def)
  have a: "a < length (store q)" using a1 by simp
  have len: "length h = length (store q)" using same by (simp add: sameCells_length)
  have "progress (?h1 ! a) \<noteq> SDP_Done"
    using sameCells_fields(2) [OF same a1] pr by simp
  from sameCells_live [OF same a1 this] have cell: "h ! a = ?h1 ! a" .
  have two: "recursiveTwo (h ! a) = recursiveTwo (store q ! a)"
    and pts: "pointSet (h ! a) = pointSet (store q ! a)"
    using a by (simp_all add: cell markEmpty_nth)
  let ?q2 = "q\<lparr>store := h, nextStep := Some a\<rparr>"
  have "\<exists>q'. visit ?q2 a = Inr (True, q')
          \<and> store q' = (store ?q2)[a := (store ?q2 ! a)\<lparr>progress := SDP_Done\<rparr>]
          \<and> hullPoints q' = hullPoints ?q2
          \<and> nextStep q' = recursiveTwo (store ?q2 ! a)
          \<and> basePointList q' = basePointList ?q2"
    by (rule visit_RecurseTwo) (use a len pts ne pr in simp_all)
  then obtain q' where v: "visit ?q2 a = Inr (True, q')"
    and st: "store q' = h[a := (h ! a)\<lparr>progress := SDP_Done\<rparr>]"
    and nx: "nextStep q' = recursiveTwo (h ! a)"
    by auto
  have "step q = Some (Inr (True, q'))"
    using cur c u v by (simp add: step_def)
  moreover have "progress (store q' ! a) = SDP_Done" using a len by (simp add: st)
  ultimately show ?thesis using nx two by auto
qed

lemma ex3_cursor:
  "nextStep (exampleAfter 3) = Some 4 \<and> 4 < length (store (exampleAfter 3))
   \<and> unwindDone (markEmpty (store (exampleAfter 3)) 4) 4
       = Some (Inr ((markEmpty (store (exampleAfter 3)) 4)
                      [4 := released (markEmpty (store (exampleAfter 3)) 4 ! 4)], 1, True))
   \<and> progress ((markEmpty (store (exampleAfter 3)) 4)
                  [4 := released (markEmpty (store (exampleAfter 3)) 4 ! 4)] ! 1) = SDP_RecurseTwo
   \<and> pointSet (store (exampleAfter 3) ! 1) \<noteq> []"
  by code_simp

lemma ex3_step:
  "step (exampleAfter 3) = Some (Inr (True, exampleAfter 4))
   \<and> nextStep (exampleAfter 4) = Some 3
   \<and> segmentA (store (exampleAfter 4) ! 3) = \<lparr>x = 0, y = 0\<rparr>
   \<and> segmentB (store (exampleAfter 4) ! 3) = \<lparr>x = 2, y = - 3\<rparr>"
  by code_simp

subsection \<open>The cells the loop pops\<close>

lemma popsTo_release:
  "popsTo (h[c := released (h ! c)]) a cs a' = popsTo h a cs a'"
proof (induction cs arbitrary: a)
  case Nil
  show ?case by simp
next
  case (Cons d cs)
  have f: "progress (h[c := released (h ! c)] ! a) = progress (h ! a)"
    "prevStep (h[c := released (h ! c)] ! a) = prevStep (h ! a)" if "a < length h"
    using that by (cases "a = c"; simp)+
  show ?case
  proof (cases "a < length h")
    case True
    with f Cons.IH show ?thesis by (simp split: option.splits)
  next
    case False
    then show ?thesis by simp
  qed
qed

lemma releaseAll_Nil [simp]: "releaseAll [] h = h"
  by (simp add: releaseAll_def)

lemma releaseAll_Cons: "releaseAll (c # cs) h = releaseAll cs (h[c := released (h ! c)])"
  by (simp add: releaseAll_def)

lemma releaseAll_snoc: "releaseAll (cs @ [c]) h = (releaseAll cs h)[c := released (releaseAll cs h ! c)]"
  by (simp add: releaseAll_def)

lemma releaseAll_length [simp]: "length (releaseAll cs h) = length h"
  by (induction cs arbitrary: h) (simp_all add: releaseAll_Cons)

lemma loopStopsAt_here_live:
  assumes "a < length h" "progress (h ! a) \<noteq> SDP_Done"
  shows "loopStopsAt h a [] a True \<and> h = releaseAll [] h"
  using assms by (simp add: loopStopsAt_def)

lemma loopStopsAt_here_root:
  assumes "a < length h" "progress (h ! a) = SDP_Done" "prevStep (h ! a) = None"
  shows "loopStopsAt h a [] a False \<and> h[a := released (h ! a)] = releaseAll ([] @ [a]) h"
  using assms by (simp add: loopStopsAt_def releaseAll_Cons)

lemma loopStopsAt_pop:
  assumes a: "a < length h" and d: "progress (h ! a) = SDP_Done" and p: "prevStep (h ! a) = Some p"
    and s: "loopStopsAt (h[a := released (h ! a)]) p cs a' b"
  shows "loopStopsAt h a (a # cs) a' b"
proof -
  let ?h1 = "h[a := released (h ! a)]"
  from s have pt: "popsTo ?h1 p cs a'" and a': "a' < length h"
    and stop: "if b then progress (?h1 ! a') \<noteq> SDP_Done
         else progress (?h1 ! a') = SDP_Done \<and> prevStep (?h1 ! a') = None"
    by (simp_all add: loopStopsAt_def)
  have f: "progress (?h1 ! a') = progress (h ! a')" "prevStep (?h1 ! a') = prevStep (h ! a')"
    using a' by (cases "a' = a"; simp)+
  from pt have "popsTo h p cs a'" by (simp add: popsTo_release)
  with a d p have pt': "popsTo h a (a # cs) a'" by simp
  from stop have "if b then progress (h ! a') \<noteq> SDP_Done
         else progress (h ! a') = SDP_Done \<and> prevStep (h ! a') = None"
    by (simp only: f)
  with a' pt' show ?thesis by (simp only: loopStopsAt_def)
qed

lemma unwindDone_chain:
  assumes "unwindDone h a = Some (Inr (h', a', b))"
  shows "\<exists>popped. loopStopsAt h a popped a' b
           \<and> h' = releaseAll (popped @ (if b then [] else [a'])) h"
proof -
  define r where "r = (Inr (h', a', b) :: undefined_behaviour + StepData list \<times> addr \<times> bool)"
  have "unwindDone h a = Some r" using assms r_def by simp
  then have "\<forall>h' a' b. r = Inr (h', a', b) \<longrightarrow>
      (\<exists>popped. loopStopsAt h a popped a' b
           \<and> h' = releaseAll (popped @ (if b then [] else [a'])) h)"
  proof (induction rule: unwindDone.raw_induct [rotated 1, consumes 1, case_names step])
    case (step unw h a r)
    have prev: "prevStep (h[a := released (h ! a)] ! a) = prevStep (h ! a)" if "a < length h"
      using that by simp
    have body: "(if length h \<le> a then Some (Inl NullPointerDereference)
      else if progress (h ! a) = SDP_Done then
        (case prevStep (h[a := released (h ! a)] ! a) of
           None \<Rightarrow> Some (Inr (h[a := released (h ! a)], a, False))
         | Some p \<Rightarrow> unw (h[a := released (h ! a)]) p)
      else Some (Inr (h, a, True))) = Some r"
      using step.hyps by (simp only: Let_def released_def [symmetric])
    show ?case
    proof (cases "length h \<le> a")
      case True
      with body show ?thesis by auto
    next
      case False
      then have inb: "a < length h" by simp
      show ?thesis
      proof (cases "progress (h ! a) = SDP_Done")
        case live: False
        with body inb have "r = Inr (h, a, True)" by simp
        then show ?thesis using loopStopsAt_here_live [OF inb live] by auto
      next
        case fin: True
        show ?thesis
        proof (cases "prevStep (h ! a)")
          case None
          with body inb fin prev have "r = Inr (h[a := released (h ! a)], a, False)" by simp
          then show ?thesis using loopStopsAt_here_root [OF inb fin None] by auto
        next
          case (Some p)
          with body inb fin prev have u: "unw (h[a := released (h ! a)]) p = Some r" by simp
          show ?thesis
          proof (intro allI impI)
            fix h' a' b assume r: "r = Inr (h', a', b)"
            from step.IH [OF u] r obtain cs where
              s: "loopStopsAt (h[a := released (h ! a)]) p cs a' b"
              and e: "h' = releaseAll (cs @ (if b then [] else [a'])) (h[a := released (h ! a)])"
              by blast
            from loopStopsAt_pop [OF inb fin Some s] e
            have "loopStopsAt h a (a # cs) a' b
                  \<and> h' = releaseAll ((a # cs) @ (if b then [] else [a'])) h"
              by (simp add: releaseAll_Cons)
            then show "\<exists>popped. loopStopsAt h a popped a' b
                \<and> h' = releaseAll (popped @ (if b then [] else [a'])) h"
              by blast
          qed
        qed
      qed
    qed
  qed
  then show ?thesis using r_def by blast
qed

lemma popsTo_stop_unique:
  assumes "popsTo h a cs a'" "popsTo h a ds d"
    and "progress (h ! a') \<noteq> SDP_Done \<or> prevStep (h ! a') = None"
    and "progress (h ! d) \<noteq> SDP_Done \<or> prevStep (h ! d) = None"
  shows "cs = ds \<and> a' = d"
  using assms
proof (induction cs arbitrary: a ds)
  case Nil
  then show ?case by (cases ds) (auto split: option.splits)
next
  case (Cons c cs)
  show ?case
  proof (cases ds)
    case Nil
    with Cons.prems show ?thesis by (auto split: option.splits)
  next
    case (Cons e es)
    with Cons.prems Cons.IH show ?thesis by (auto split: option.splits)
  qed
qed

lemma loopStopsAt_unique:
  assumes "loopStopsAt h a cs a' b" "loopStopsAt h a ds d e"
  shows "cs = ds \<and> a' = d \<and> b = e"
proof -
  from assms have p: "popsTo h a cs a'" "popsTo h a ds d" by (simp_all add: loopStopsAt_def)
  from assms have s: "progress (h ! a') \<noteq> SDP_Done \<or> prevStep (h ! a') = None"
    "progress (h ! d) \<noteq> SDP_Done \<or> prevStep (h ! d) = None"
    by (auto simp: loopStopsAt_def split: if_splits)
  from popsTo_stop_unique [OF p s] have "cs = ds" "a' = d" by simp_all
  with assms show ?thesis by (auto simp: loopStopsAt_def split: if_splits)
qed

lemma ex1_loop:
  "nextStep (exampleAfter 1) = Some 2
   \<and> loopStopsAt (markEmpty (store (exampleAfter 1)) 2) 2 [2] 0 True"
  by code_simp

lemma ex4_loop:
  "nextStep (exampleAfter 4) = Some 3
   \<and> loopStopsAt (markEmpty (store (exampleAfter 4)) 3) 3 [3, 1] 0 False"
  by code_simp

subsection \<open>The account of the hull points\<close>

lemma account_update:
  assumes "a < length h"
  shows "mset (account (h[a := n])) + mset (appended (h ! a)) = mset (account h) + mset (appended n)"
  using assms
proof (induction h arbitrary: a)
  case Nil
  then show ?case by simp
next
  case (Cons c h)
  show ?case
  proof (cases a)
    case 0
    then show ?thesis by (simp add: account_def)
  next
    case (Suc k)
    with Cons.prems have "k < length h" by simp
    from Cons.IH [OF this] show ?thesis using Suc by (simp add: account_def)
  qed
qed

lemma account_append: "account (h @ h') = account h @ account h'"
  by (simp add: account_def)

lemma account_same:
  assumes "length h' = length h" and "\<And>i. i < length h \<Longrightarrow> appended (h' ! i) = appended (h ! i)"
  shows "account h' = account h"
proof -
  have "map appended h' = map appended h"
    using assms by (simp add: list_eq_iff_nth_eq)
  then show ?thesis by (simp add: account_def)
qed

lemma appended_childCell [simp]: "appended (childCell p A B pts) = []"
  by (simp add: appended_def childCell_def)

lemma appended_rootCell [simp]: "appended (rootCell base) = []"
  by (simp add: appended_def rootCell_def)

lemma appended_empty: "pointSet n = [] \<Longrightarrow> appended n = []"
  by (simp add: appended_def)

lemma appended_cong:
  assumes "pointSet n' = pointSet n" "prevStep n' = prevStep n" "segmentA n' = segmentA n"
    "segmentB n' = segmentB n" "progress n' = progress n"
  shows "appended n' = appended n"
  using assms by (simp add: appended_def)

lemma markEmpty_account:
  assumes "a < length h"
  shows "account (markEmpty h a) = account h"
proof (rule account_same)
  show "length (markEmpty h a) = length h" by simp
next
  fix i assume i: "i < length h"
  show "appended (markEmpty h a ! i) = appended (h ! i)"
  proof (cases "i = a \<and> pointSet (h ! a) = []")
    case True
    then have "pointSet (markEmpty h a ! i) = []" "pointSet (h ! i) = []"
      using i by (simp_all add: markEmpty_nth)
    then show ?thesis by (simp add: appended_empty)
  next
    case False
    then show ?thesis using i by (intro appended_cong) (auto simp: markEmpty_nth)
  qed
qed

lemma sameCells_account:
  assumes "sameCells h h'"
  shows "account h' = account h"
proof (rule account_same)
  show "length h' = length h" using assms by (rule sameCells_length)
next
  fix i assume "i < length h"
  from sameCells_fields [OF assms this]
  show "appended (h' ! i) = appended (h ! i)" by (intro appended_cong)
qed

lemma progressOk_nth: "progressOk h \<longleftrightarrow> (\<forall>i < length h. cellKind (h ! i))"
  by (simp add: progressOk_def list_all_length)

lemma cellKind_cong:
  assumes "prevStep n' = prevStep n" "progress n' = progress n"
  shows "cellKind n' = cellKind n"
  using assms by (simp add: cellKind_def)

lemma markEmpty_progressOk:
  assumes "progressOk h" "a < length h"
  shows "progressOk (markEmpty h a)"
  unfolding progressOk_nth
proof (intro allI impI)
  fix i assume "i < length (markEmpty h a)"
  then have i: "i < length h" by simp
  from assms(1) i have k: "cellKind (h ! i)" by (simp add: progressOk_nth)
  show "cellKind (markEmpty h a ! i)"
    using k i by (auto simp: cellKind_def markEmpty_nth split: option.splits)
qed

lemma sameCells_progressOk:
  assumes "progressOk h" "sameCells h h'"
  shows "progressOk h'"
  unfolding progressOk_nth
proof (intro allI impI)
  fix i assume "i < length h'"
  then have i: "i < length h" using assms(2) by (simp add: sameCells_length)
  from assms(1) i have k: "cellKind (h ! i)" by (simp add: progressOk_nth)
  from sameCells_fields [OF assms(2) i] k show "cellKind (h' ! i)"
    by (simp add: cellKind_def)
qed

lemma progressOk_update:
  assumes "progressOk h" "cellKind n"
  shows "progressOk (h[a := n])"
  unfolding progressOk_nth
proof (intro allI impI)
  fix i assume "i < length (h[a := n])"
  then have i: "i < length h" by simp
  show "cellKind (h[a := n] ! i)"
    using assms i by (cases "i = a") (simp_all add: progressOk_nth)
qed

lemma cellKind_childCell [simp]: "cellKind (childCell p A B pts)"
  by (simp add: cellKind_def childCell_def)

lemma visit_account:
  assumes v: "visit q a = Inr (b, q')" and a: "a < length (store q)"
    and ok: "progressOk (store q)"
  shows "progressOk (store q')
         \<and> mset (hullPoints q' @ account (store q)) = mset (hullPoints q @ account (store q'))"
proof -
  let ?n = "store q ! a"
  from ok a have k: "cellKind ?n" by (simp add: progressOk_nth)
  from visit_effect [OF v a] have ne: "pointSet ?n \<noteq> []"
    and eff: "(case progress ?n of
          SDP_RecurseOne \<Rightarrow>
            (\<exists>f. calculateFurthestPoint (segmentA ?n) (segmentB ?n) (pointSet ?n) = Inr f
                \<and> f \<in> set (pointSet ?n)
                \<and> store q' =
                    (store q)[a := ?n\<lparr>recursiveOne := Some (length (store q) + 1),
                                                 recursiveTwo := Some (length (store q)),
                                                 progress := SDP_RecurseTwo\<rparr>]
                    @ [childCell a (segmentA ?n) f (pointSet ?n),
                       childCell a f (segmentB ?n) (pointSet ?n)]
                \<and> hullPoints q' = hullPoints q @ [f]
                \<and> nextStep q' = Some (length (store q) + 1))
        | SDP_RecurseTwo \<Rightarrow>
            store q' = (store q)[a := ?n\<lparr>progress := SDP_Done\<rparr>]
            \<and> hullPoints q' = hullPoints q \<and> nextStep q' = recursiveTwo ?n
        | SDP_Done \<Rightarrow>
            store q' = store q \<and> hullPoints q' = hullPoints q \<and> nextStep q' = nextStep q
        | SDP_FirstIteration \<Rightarrow>
            store q' = (store q)[a := ?n\<lparr>progress := SDP_RecurseTwo\<rparr>]
            \<and> hullPoints q' = hullPoints q \<and> nextStep q' = recursiveOne ?n)"
    by simp_all
  show ?thesis
  proof (cases "progress ?n")
    case SDP_RecurseOne
    with eff obtain f where
      f: "calculateFurthestPoint (segmentA ?n) (segmentB ?n) (pointSet ?n) = Inr f"
      and st: "store q' =
                    (store q)[a := ?n\<lparr>recursiveOne := Some (length (store q) + 1),
                                                 recursiveTwo := Some (length (store q)),
                                                 progress := SDP_RecurseTwo\<rparr>]
                    @ [childCell a (segmentA ?n) f (pointSet ?n),
                       childCell a f (segmentB ?n) (pointSet ?n)]"
      and hp: "hullPoints q' = hullPoints q @ [f]"
      by auto
    define n' where "n' = ?n\<lparr>recursiveOne := Some (length (store q) + 1),
                                                 recursiveTwo := Some (length (store q)),
                                                 progress := SDP_RecurseTwo\<rparr>"
    from k SDP_RecurseOne have par: "prevStep ?n \<noteq> None"
      by (auto simp: cellKind_def split: option.splits)
    have old: "appended ?n = []" using SDP_RecurseOne by (simp add: appended_def)
    have new: "appended n' = [f]" using par ne f by (simp add: appended_def n'_def)
    have kn: "cellKind n'" using par by (auto simp: cellKind_def n'_def split: option.splits)
    have st': "store q' = (store q)[a := n'] @ [childCell a (segmentA ?n) f (pointSet ?n),
                       childCell a f (segmentB ?n) (pointSet ?n)]"
      using st by (simp add: n'_def)
    from account_update [OF a, of n'] old new
    have "mset (account ((store q)[a := n'])) = mset (account (store q)) + {#f#}" by simp
    then have acc: "mset (account (store q')) = mset (account (store q)) + {#f#}"
      by (simp add: st' account_append account_def)
    have "progressOk (store q')"
      using progressOk_update [OF ok kn, of a]
      by (simp add: st' progressOk_def)
    with acc hp show ?thesis by simp
  next
    case SDP_RecurseTwo
    with eff have st: "store q' = (store q)[a := ?n\<lparr>progress := SDP_Done\<rparr>]"
      and hp: "hullPoints q' = hullPoints q" by simp_all
    have same: "appended (?n\<lparr>progress := SDP_Done\<rparr>) = appended ?n"
      using SDP_RecurseTwo by (simp add: appended_def)
    have kn: "cellKind (?n\<lparr>progress := SDP_Done\<rparr>)"
      by (auto simp: cellKind_def split: option.splits)
    from account_update [OF a, of "?n\<lparr>progress := SDP_Done\<rparr>"] same
    have "mset (account (store q')) = mset (account (store q))" by (simp add: st)
    with hp progressOk_update [OF ok kn, of a] show ?thesis by (simp add: st)
  next
    case SDP_Done
    with eff ok show ?thesis by simp
  next
    case SDP_FirstIteration
    with eff have st: "store q' = (store q)[a := ?n\<lparr>progress := SDP_RecurseTwo\<rparr>]"
      and hp: "hullPoints q' = hullPoints q" by simp_all
    from k SDP_FirstIteration have par: "prevStep ?n = None"
      by (auto simp: cellKind_def split: option.splits)
    have same: "appended (?n\<lparr>progress := SDP_RecurseTwo\<rparr>) = appended ?n"
      using par by (simp add: appended_def)
    have kn: "cellKind (?n\<lparr>progress := SDP_RecurseTwo\<rparr>)"
      using par by (auto simp: cellKind_def split: option.splits)
    from account_update [OF a, of "?n\<lparr>progress := SDP_RecurseTwo\<rparr>"] same
    have "mset (account (store q')) = mset (account (store q))" by (simp add: st)
    with hp progressOk_update [OF ok kn, of a] show ?thesis by (simp add: st)
  qed
qed

lemma step_account:
  assumes s: "step q = Some (Inr (b, q'))" and ok: "progressOk (store q)"
  shows "progressOk (store q')
         \<and> mset (hullPoints q' @ account (store q)) = mset (hullPoints q @ account (store q'))"
proof -
  let ?h0 = "store q"
  from s obtain a h a' where cur: "nextStep q = Some a" and a: "a < length ?h0"
    and u: "unwindDone (markEmpty ?h0 a) a = Some (Inr (h, a', b))"
    and r: "if b then visit (q\<lparr>store := h, nextStep := Some a'\<rparr>) a' = Inr (True, q')
            else q' = q\<lparr>store := h, nextStep := Some a'\<rparr>"
    by (rule step_cases)
  let ?h1 = "markEmpty ?h0 a"
  from unwindDone_result [OF u] have same: "sameCells ?h1 h" and a'1: "a' < length ?h1"
    by (simp_all add: stopsAt_def)
  have len: "length h = length ?h0" using same by (simp add: sameCells_length)
  have acc: "account h = account ?h0"
    using sameCells_account [OF same] markEmpty_account [OF a] by simp
  have okh: "progressOk h"
    using sameCells_progressOk [OF markEmpty_progressOk [OF ok a] same] .
  show ?thesis
  proof (cases b)
    case False
    with r have "q' = q\<lparr>store := h, nextStep := Some a'\<rparr>" by simp
    with acc okh show ?thesis by simp
  next
    case True
    let ?q2 = "q\<lparr>store := h, nextStep := Some a'\<rparr>"
    from True r have v: "visit ?q2 a' = Inr (True, q')" by simp
    have a'2: "a' < length (store ?q2)" using a'1 len by simp
    have ok2: "progressOk (store ?q2)" using okh by simp
    from visit_account [OF v a'2 ok2] acc show ?thesis by simp
  qed
qed

lemma afterSteps_account:
  assumes "afterSteps n q = Some q'" and "progressOk (store q)"
    and "mset (hullPoints q) = mset (E @ account (store q))"
  shows "progressOk (store q') \<and> mset (hullPoints q') = mset (E @ account (store q'))"
  using assms
proof (induction n arbitrary: q)
  case 0
  then show ?case by simp
next
  case (Suc n)
  from Suc.prems(1) obtain b q1 where s: "step q = Some (Inr (b, q1))"
    and r: "afterSteps n q1 = Some q'"
    by (auto split: option.splits sum.splits)
  from step_account [OF s Suc.prems(2)] have ok1: "progressOk (store q1)"
    and e: "mset (hullPoints q1 @ account (store q)) = mset (hullPoints q @ account (store q1))"
    by simp_all
  from e Suc.prems(3) have "mset (hullPoints q1) = mset (E @ account (store q1))"
    by simp
  from Suc.IH [OF r ok1 this] show ?case .
qed

lemma start_account:
  assumes "randomizeInputWith generated q = Inr q0"
  shows "progressOk (store q0)
         \<and> mset (hullPoints q0)
             = mset ([hd (sortPoints generated), last (sortPoints generated)] @ account (store q0))"
proof -
  from assms have ne: "generated \<noteq> []"
    by (auto simp: randomizeInputWith_def Let_def split: if_splits)
  from randomizeInputWith_start [OF ne, of q] assms
  have st: "store q0 = [rootCell (sortPoints generated),
                         childCell 0 (hd (sortPoints generated)) (last (sortPoints generated))
                           (sortPoints generated),
                         childCell 0 (last (sortPoints generated)) (hd (sortPoints generated))
                           (sortPoints generated)]"
    and hp: "hullPoints q0 = [hd (sortPoints generated), last (sortPoints generated)]"
    by auto
  have "cellKind (rootCell (sortPoints generated))"
    by (simp add: cellKind_def rootCell_def)
  then show ?thesis by (simp add: st hp progressOk_def account_def)
qed

lemma afterSteps_parents:
  assumes r: "randomizeInputWith generated q = Inr q0" and s: "afterSteps n q0 = Some qn"
  shows "prevStep (store qn ! 0) = None
         \<and> (\<forall>a < length (store qn). 0 < a \<longrightarrow> prevStep (store qn ! a) \<noteq> None)"
proof -
  from r have ne: "generated \<noteq> []"
    by (auto simp: randomizeInputWith_def Let_def split: if_splits)
  from randomizeInputWith_start [OF ne, of q] r
  have st: "store q0 = [rootCell (sortPoints generated),
                         childCell 0 (hd (sortPoints generated)) (last (sortPoints generated))
                           (sortPoints generated),
                         childCell 0 (last (sortPoints generated)) (hd (sortPoints generated))
                           (sortPoints generated)]"
    by auto
  from afterSteps_grows [OF s] have len: "length (store q0) \<le> length (store qn)"
    and old: "\<And>i. i < length (store q0) \<Longrightarrow> prevStep (store qn ! i) = prevStep (store q0 ! i)"
    and new: "\<And>i. i < length (store qn) \<Longrightarrow> length (store q0) \<le> i \<Longrightarrow> childOk (store qn) i"
    by (simp_all add: grows_def)
  have p0: "prevStep (store qn ! 0) = None" using old [of 0] by (simp add: st rootCell_def)
  have "prevStep (store qn ! a) \<noteq> None" if a: "a < length (store qn)" "0 < a" for a
  proof (cases "a < length (store q0)")
    case True
    then have "a = 1 \<or> a = 2" using a(2) by (auto simp: st)
    then show ?thesis using old [OF True] by (auto simp: st)
  next
    case False
    then have "childOk (store qn) a" using new a(1) by simp
    then show ?thesis by (auto simp: childOk_def)
  qed
  with p0 show ?thesis by blast
qed

lemma step_append:
  assumes s: "step q = Some (Inr (b, q1))"
  shows "\<exists>c popped a. nextStep q = Some c \<and> a < length (store q)
           \<and> loopStopsAt (markEmpty (store q) c) c popped a b
           \<and> (if b \<and> progress (store q ! a) = SDP_RecurseOne then
                 (\<exists>f. calculateFurthestPoint (segmentA (store q ! a)) (segmentB (store q ! a))
                          (pointSet (store q ! a)) = Inr f
                    \<and> hullPoints q1 = hullPoints q @ [f]
                    \<and> length (store q1) = length (store q) + 2
                    \<and> store q1 ! length (store q) =
                         childCell a (segmentA (store q ! a)) f (pointSet (store q ! a))
                    \<and> store q1 ! (length (store q) + 1) =
                         childCell a f (segmentB (store q ! a)) (pointSet (store q ! a)))
               else hullPoints q1 = hullPoints q \<and> length (store q1) = length (store q))"
proof -
  let ?h0 = "store q"
  from s obtain c h a where cur: "nextStep q = Some c" and c: "c < length ?h0"
    and u: "unwindDone (markEmpty ?h0 c) c = Some (Inr (h, a, b))"
    and r: "if b then visit (q\<lparr>store := h, nextStep := Some a\<rparr>) a = Inr (True, q1)
            else q1 = q\<lparr>store := h, nextStep := Some a\<rparr>"
    by (rule step_cases)
  let ?h1 = "markEmpty ?h0 c"
  from unwindDone_chain [OF u] obtain popped where l: "loopStopsAt ?h1 c popped a b"
    by blast
  from unwindDone_result [OF u] have same: "sameCells ?h1 h" and a1: "a < length ?h1"
    by (simp_all add: stopsAt_def)
  have a: "a < length ?h0" using a1 by simp
  have len: "length h = length ?h0" using same by (simp add: sameCells_length)
  have pr: "progress (h ! a) = progress (?h1 ! a)"
    using sameCells_fields(2) [OF same a1] .
  have fl: "pointSet (h ! a) = pointSet (?h0 ! a)" "segmentA (h ! a) = segmentA (?h0 ! a)"
    "segmentB (h ! a) = segmentB (?h0 ! a)"
    using sameCells_fields(1,4,5) [OF same a1] a by (simp_all add: markEmpty_nth)
  let ?n = "?h0 ! a"
  have fin: "if b \<and> progress ?n = SDP_RecurseOne then
                 (\<exists>f. calculateFurthestPoint (segmentA ?n) (segmentB ?n) (pointSet ?n) = Inr f
                    \<and> hullPoints q1 = hullPoints q @ [f]
                    \<and> length (store q1) = length ?h0 + 2
                    \<and> store q1 ! length ?h0 = childCell a (segmentA ?n) f (pointSet ?n)
                    \<and> store q1 ! (length ?h0 + 1) = childCell a f (segmentB ?n) (pointSet ?n))
               else hullPoints q1 = hullPoints q \<and> length (store q1) = length ?h0"
  proof (cases b)
    case False
    with r have "q1 = q\<lparr>store := h, nextStep := Some a\<rparr>" by simp
    with False len show ?thesis by simp
  next
    case True
    let ?q2 = "q\<lparr>store := h, nextStep := Some a\<rparr>"
    from True r have v: "visit ?q2 a = Inr (True, q1)" by simp
    have a2: "a < length (store ?q2)" using a len by simp
    from visit_nonempty [OF v] have ne: "pointSet ?n \<noteq> []" using fl by simp
    have same_pr: "progress (h ! a) = progress ?n"
      using pr a ne by (auto simp: markEmpty_nth)
    note eff = visit_effect [OF v a2]
    show ?thesis
    proof (cases "progress ?n")
      case SDP_RecurseOne
      with eff same_pr obtain f where
        f: "calculateFurthestPoint (segmentA (h ! a)) (segmentB (h ! a)) (pointSet (h ! a)) = Inr f"
        and st: "store q1 =
                    h[a := (h ! a)\<lparr>recursiveOne := Some (length h + 1),
                                    recursiveTwo := Some (length h),
                                    progress := SDP_RecurseTwo\<rparr>]
                    @ [childCell a (segmentA (h ! a)) f (pointSet (h ! a)),
                       childCell a f (segmentB (h ! a)) (pointSet (h ! a))]"
        and hp: "hullPoints q1 = hullPoints q @ [f]"
        by auto
      have "length (store q1) = length ?h0 + 2"
        "store q1 ! length ?h0 = childCell a (segmentA ?n) f (pointSet ?n)"
        "store q1 ! (length ?h0 + 1) = childCell a f (segmentB ?n) (pointSet ?n)"
        using len fl by (simp_all add: st nth_append)
      with f fl hp True SDP_RecurseOne show ?thesis by simp
    next
      case SDP_RecurseTwo
      with eff same_pr len show ?thesis by simp
    next
      case SDP_Done
      with eff same_pr len show ?thesis by simp
    next
      case SDP_FirstIteration
      with eff same_pr len show ?thesis by simp
    qed
  qed
  show ?thesis
    by (intro exI [of _ c] exI [of _ popped] exI [of _ a] conjI) (rule cur a l fin)+
qed

lemma ex2_loop:
  "nextStep (exampleAfter 2) = Some 1
   \<and> loopStopsAt (markEmpty (store (exampleAfter 2)) 1) 1 [] 1 True
   \<and> progress (store (exampleAfter 2) ! 1) = SDP_RecurseOne"
  by code_simp

lemma ex1_stop: "progress (store (exampleAfter 1) ! 0) = SDP_RecurseTwo"
  by code_simp

lemma ex5_all: "afterSteps 5 exampleStart = Some (exampleAfter 5)"
  by code_simp

lemma ex5_hull:
  "hullPoints (exampleAfter 5) = [\<lparr>x = 0, y = 0\<rparr>, \<lparr>x = 4, y = 0\<rparr>, \<lparr>x = 2, y = - 3\<rparr>]
   \<and> concat (map appended (store (exampleAfter 5))) = [\<lparr>x = 2, y = - 3\<rparr>]
   \<and> hd (sortPoints examplePoints) = \<lparr>x = 0, y = 0\<rparr>
   \<and> last (sortPoints examplePoints) = \<lparr>x = 4, y = 0\<rparr>"
  by code_simp

section \<open>The partition and the furthest point\<close>

text \<open>
  Claim C5 says, for all points and every list, that the partition keeps exactly the points
  whose orientation sign is strictly negative. The function decides on the value of the
  \<open>int\<close> expression. For the segment \<open>(0,0)-(65536,0)\<close> the point \<open>(0,32768)\<close>, whose
  orientation sign \<open>2147483648\<close> is positive, is kept, and the point \<open>(0,-32769)\<close>, whose
  orientation sign \<open>-2147549184\<close> is negative, is dropped.
\<close>

theorem calcPointsOnRightSide_overflow:
  "orientationSign \<lparr>x = 0, y = 0\<rparr> \<lparr>x = 65536, y = 0\<rparr> \<lparr>x = 0, y = 32768\<rparr> = 2147483648
   \<and> orientationSign \<lparr>x = 0, y = 0\<rparr> \<lparr>x = 65536, y = 0\<rparr> \<lparr>x = 0, y = - 32769\<rparr> = - 2147549184
   \<and> calcPointsOnRightSide \<lparr>x = 0, y = 0\<rparr> \<lparr>x = 65536, y = 0\<rparr>
        [\<lparr>x = 0, y = 32768\<rparr>, \<lparr>x = 0, y = - 32769\<rparr>] = [\<lparr>x = 0, y = 32768\<rparr>]"
  by code_simp

text \<open>
  Claim C5, amended. For all points \<open>bgn\<close>, \<open>en\<close> and every list such that, for each
  point of the list, no step of the \<open>int\<close> expression overflows, and so whenever \<open>bgn\<close>,
  \<open>en\<close> and the points of the list are in the generator's range,
  \<open>calcPointsOnRightSide\<close> returns, in the order of the list, exactly the points that
  are coordinate-equal to neither \<open>bgn\<close> nor \<open>en\<close> and whose orientation sign with
  respect to the segment from \<open>bgn\<close> to \<open>en\<close> is strictly negative; collinear and
  positive points never appear. For the boundary \<open>(0,0)-(10,0)\<close> the point \<open>(5,-5)\<close> is
  kept, \<open>(5,5)\<close> is dropped, and the collinear \<open>(5,0)\<close> is dropped for both directions
  of the segment. Nothing is stated of an input on which a step overflows, which is
  undefined in C++.
\<close>

theorem calcPointsOnRightSide_exact_partition:
  "((\<forall>p\<in>set list. list_all inIntRange (determinantSteps bgn en p)) \<longrightarrow>
      calcPointsOnRightSide bgn en list =
        filter (\<lambda>p. \<not> comparePoints p bgn \<and> \<not> comparePoints p en
                     \<and> orientationSign bgn en p < 0) list)
   \<and> (inWindow bgn \<and> inWindow en \<and> (\<forall>p\<in>set list. inWindow p) \<longrightarrow>
      calcPointsOnRightSide bgn en list =
        filter (\<lambda>p. \<not> comparePoints p bgn \<and> \<not> comparePoints p en
                     \<and> orientationSign bgn en p < 0) list)
   \<and> calcPointsOnRightSide \<lparr>x = 0, y = 0\<rparr> \<lparr>x = 10, y = 0\<rparr>
        [\<lparr>x = 5, y = - 5\<rparr>, \<lparr>x = 5, y = 5\<rparr>, \<lparr>x = 5, y = 0\<rparr>] = [\<lparr>x = 5, y = - 5\<rparr>]
   \<and> calcPointsOnRightSide \<lparr>x = 10, y = 0\<rparr> \<lparr>x = 0, y = 0\<rparr>
        [\<lparr>x = 5, y = - 5\<rparr>, \<lparr>x = 5, y = 5\<rparr>, \<lparr>x = 5, y = 0\<rparr>] = [\<lparr>x = 5, y = 5\<rparr>]"
proof -
  have exact: "calcPointsOnRightSide bgn en list =
        filter (\<lambda>p. \<not> comparePoints p bgn \<and> \<not> comparePoints p en
                     \<and> orientationSign bgn en p < 0) list"
    if ok: "\<forall>p\<in>set list. list_all inIntRange (determinantSteps bgn en p)"
  proof -
    have "filter (\<lambda>p. \<not> comparePoints p bgn \<and> \<not> comparePoints p en
                        \<and> determinant bgn en p <s 0) list
          = filter (\<lambda>p. \<not> comparePoints p bgn \<and> \<not> comparePoints p en
                        \<and> orientationSign bgn en p < 0) list"
      using ok by (intro filter_cong refl) (simp add: word_sless_alt determinant_exact)
    then show ?thesis by (simp add: calcPointsOnRightSide_filter)
  qed
  have window: "\<forall>p\<in>set list. list_all inIntRange (determinantSteps bgn en p)"
    if "inWindow bgn \<and> inWindow en \<and> (\<forall>p\<in>set list. inWindow p)"
    using that by (simp add: window_steps_in_range)
  have c1: "calcPointsOnRightSide \<lparr>x = 0, y = 0\<rparr> \<lparr>x = 10, y = 0\<rparr>
        [\<lparr>x = 5, y = - 5\<rparr>, \<lparr>x = 5, y = 5\<rparr>, \<lparr>x = 5, y = 0\<rparr>] = [\<lparr>x = 5, y = - 5\<rparr>]"
    by code_simp
  have c2: "calcPointsOnRightSide \<lparr>x = 10, y = 0\<rparr> \<lparr>x = 0, y = 0\<rparr>
        [\<lparr>x = 5, y = - 5\<rparr>, \<lparr>x = 5, y = 5\<rparr>, \<lparr>x = 5, y = 0\<rparr>] = [\<lparr>x = 5, y = 5\<rparr>]"
    by code_simp
  from exact window c1 c2 show ?thesis by blast
qed

text \<open>
  A list that holds both endpoints, a collinear point and a positive one, and a list in
  the generator's range.
\<close>

theorem calcPointsOnRightSide_exact_partition_witness:
  "list_all (\<lambda>p. list_all inIntRange (determinantSteps \<lparr>x = 0, y = 0\<rparr> \<lparr>x = 10, y = 0\<rparr> p))
      [\<lparr>x = 5, y = - 5\<rparr>, \<lparr>x = 0, y = 0\<rparr>, \<lparr>x = 7, y = 3\<rparr>, \<lparr>x = 5, y = 0\<rparr>, \<lparr>x = 10, y = 0\<rparr>, \<lparr>x = 2, y = - 1\<rparr>]
   \<and> calcPointsOnRightSide \<lparr>x = 0, y = 0\<rparr> \<lparr>x = 10, y = 0\<rparr>
        [\<lparr>x = 5, y = - 5\<rparr>, \<lparr>x = 0, y = 0\<rparr>, \<lparr>x = 7, y = 3\<rparr>, \<lparr>x = 5, y = 0\<rparr>, \<lparr>x = 10, y = 0\<rparr>, \<lparr>x = 2, y = - 1\<rparr>]
      = filter (\<lambda>p. \<not> comparePoints p \<lparr>x = 0, y = 0\<rparr> \<and> \<not> comparePoints p \<lparr>x = 10, y = 0\<rparr>
                     \<and> orientationSign \<lparr>x = 0, y = 0\<rparr> \<lparr>x = 10, y = 0\<rparr> p < 0)
          [\<lparr>x = 5, y = - 5\<rparr>, \<lparr>x = 0, y = 0\<rparr>, \<lparr>x = 7, y = 3\<rparr>, \<lparr>x = 5, y = 0\<rparr>, \<lparr>x = 10, y = 0\<rparr>, \<lparr>x = 2, y = - 1\<rparr>]
   \<and> calcPointsOnRightSide \<lparr>x = 0, y = 0\<rparr> \<lparr>x = 10, y = 0\<rparr>
        [\<lparr>x = 5, y = - 5\<rparr>, \<lparr>x = 0, y = 0\<rparr>, \<lparr>x = 7, y = 3\<rparr>, \<lparr>x = 5, y = 0\<rparr>, \<lparr>x = 10, y = 0\<rparr>, \<lparr>x = 2, y = - 1\<rparr>]
      = [\<lparr>x = 5, y = - 5\<rparr>, \<lparr>x = 2, y = - 1\<rparr>]
   \<and> inWindow \<lparr>x = 1269, y = 10\<rparr> \<and> inWindow \<lparr>x = 10, y = 10\<rparr>
   \<and> list_all inWindow
        [\<lparr>x = 500, y = 300\<rparr>, \<lparr>x = 500, y = 10\<rparr>, \<lparr>x = 10, y = 10\<rparr>, \<lparr>x = 1269, y = 709\<rparr>]
   \<and> calcPointsOnRightSide \<lparr>x = 1269, y = 10\<rparr> \<lparr>x = 10, y = 10\<rparr>
        [\<lparr>x = 500, y = 300\<rparr>, \<lparr>x = 500, y = 10\<rparr>, \<lparr>x = 10, y = 10\<rparr>, \<lparr>x = 1269, y = 709\<rparr>]
      = filter (\<lambda>p. \<not> comparePoints p \<lparr>x = 1269, y = 10\<rparr> \<and> \<not> comparePoints p \<lparr>x = 10, y = 10\<rparr>
                     \<and> orientationSign \<lparr>x = 1269, y = 10\<rparr> \<lparr>x = 10, y = 10\<rparr> p < 0)
          [\<lparr>x = 500, y = 300\<rparr>, \<lparr>x = 500, y = 10\<rparr>, \<lparr>x = 10, y = 10\<rparr>, \<lparr>x = 1269, y = 709\<rparr>]
   \<and> calcPointsOnRightSide \<lparr>x = 1269, y = 10\<rparr> \<lparr>x = 10, y = 10\<rparr>
        [\<lparr>x = 500, y = 300\<rparr>, \<lparr>x = 500, y = 10\<rparr>, \<lparr>x = 10, y = 10\<rparr>, \<lparr>x = 1269, y = 709\<rparr>]
      = [\<lparr>x = 500, y = 300\<rparr>, \<lparr>x = 1269, y = 709\<rparr>]"
proof -
  have h: "\<forall>p\<in>set [\<lparr>x = 5, y = - 5\<rparr>, \<lparr>x = 0, y = 0\<rparr>, \<lparr>x = 7, y = 3\<rparr>, \<lparr>x = 5, y = 0\<rparr>, \<lparr>x = 10, y = 0\<rparr>, \<lparr>x = 2, y = - 1\<rparr>].
       list_all inIntRange (determinantSteps \<lparr>x = 0, y = 0\<rparr> \<lparr>x = 10, y = 0\<rparr> p)"
    by code_simp
  have v: "calcPointsOnRightSide \<lparr>x = 0, y = 0\<rparr> \<lparr>x = 10, y = 0\<rparr>
        [\<lparr>x = 5, y = - 5\<rparr>, \<lparr>x = 0, y = 0\<rparr>, \<lparr>x = 7, y = 3\<rparr>, \<lparr>x = 5, y = 0\<rparr>, \<lparr>x = 10, y = 0\<rparr>, \<lparr>x = 2, y = - 1\<rparr>]
      = [\<lparr>x = 5, y = - 5\<rparr>, \<lparr>x = 2, y = - 1\<rparr>]"
    by code_simp
  have w: "inWindow \<lparr>x = 1269, y = 10\<rparr> \<and> inWindow \<lparr>x = 10, y = 10\<rparr>
     \<and> (\<forall>p\<in>set [\<lparr>x = 500, y = 300\<rparr>, \<lparr>x = 500, y = 10\<rparr>, \<lparr>x = 10, y = 10\<rparr>, \<lparr>x = 1269, y = 709\<rparr>].
           inWindow p)"
    by code_simp
  have u: "calcPointsOnRightSide \<lparr>x = 1269, y = 10\<rparr> \<lparr>x = 10, y = 10\<rparr>
        [\<lparr>x = 500, y = 300\<rparr>, \<lparr>x = 500, y = 10\<rparr>, \<lparr>x = 10, y = 10\<rparr>, \<lparr>x = 1269, y = 709\<rparr>]
      = [\<lparr>x = 500, y = 300\<rparr>, \<lparr>x = 1269, y = 709\<rparr>]"
    by code_simp
  from calcPointsOnRightSide_exact_partition
    [of "[\<lparr>x = 5, y = - 5\<rparr>, \<lparr>x = 0, y = 0\<rparr>, \<lparr>x = 7, y = 3\<rparr>, \<lparr>x = 5, y = 0\<rparr>, \<lparr>x = 10, y = 0\<rparr>, \<lparr>x = 2, y = - 1\<rparr>]"
        "\<lparr>x = 0, y = 0\<rparr>" "\<lparr>x = 10, y = 0\<rparr>"]
    calcPointsOnRightSide_exact_partition
    [of "[\<lparr>x = 500, y = 300\<rparr>, \<lparr>x = 500, y = 10\<rparr>, \<lparr>x = 10, y = 10\<rparr>, \<lparr>x = 1269, y = 709\<rparr>]"
        "\<lparr>x = 1269, y = 10\<rparr>" "\<lparr>x = 10, y = 10\<rparr>"]
  show ?thesis using h v w u unfolding list_all_iff by blast
qed

text \<open>
  Claim C6 says, for all points and every non-empty list, that the result maximises the
  absolute value of the orientation sign. The function compares the values of the \<open>int\<close>
  expression under \<open>abs\<close>. For the segment \<open>(0,0)-(100000,0)\<close> and the list of
  \<open>(0,40000)\<close> and \<open>(0,10000)\<close> it returns \<open>(0,10000)\<close>, of extremal distance
  \<open>1000000000\<close>, and not \<open>(0,40000)\<close>, of extremal distance \<open>4000000000\<close>. For the
  segment \<open>(0,0)-(65536,0)\<close> it returns \<open>(1,0)\<close>, of extremal distance \<open>0\<close>, and not
  \<open>(32768,-32768)\<close>, of extremal distance \<open>2147483648\<close>: the \<open>int\<close> value there is
  \<open>INT_MIN\<close>, and so is its \<open>abs\<close>.
\<close>

theorem calculateFurthestPoint_overflow:
  "extremalDistance \<lparr>x = 0, y = 0\<rparr> \<lparr>x = 100000, y = 0\<rparr> \<lparr>x = 0, y = 40000\<rparr> = 4000000000
   \<and> extremalDistance \<lparr>x = 0, y = 0\<rparr> \<lparr>x = 100000, y = 0\<rparr> \<lparr>x = 0, y = 10000\<rparr> = 1000000000
   \<and> calculateFurthestPoint \<lparr>x = 0, y = 0\<rparr> \<lparr>x = 100000, y = 0\<rparr>
        [\<lparr>x = 0, y = 40000\<rparr>, \<lparr>x = 0, y = 10000\<rparr>] = Inr \<lparr>x = 0, y = 10000\<rparr>
   \<and> extremalDistance \<lparr>x = 0, y = 0\<rparr> \<lparr>x = 65536, y = 0\<rparr> \<lparr>x = 1, y = 0\<rparr> = 0
   \<and> extremalDistance \<lparr>x = 0, y = 0\<rparr> \<lparr>x = 65536, y = 0\<rparr> \<lparr>x = 32768, y = - 32768\<rparr>
        = 2147483648
   \<and> calculateFurthestPoint \<lparr>x = 0, y = 0\<rparr> \<lparr>x = 65536, y = 0\<rparr>
        [\<lparr>x = 1, y = 0\<rparr>, \<lparr>x = 32768, y = - 32768\<rparr>] = Inr \<lparr>x = 1, y = 0\<rparr>"
  by code_simp

text \<open>
  Claim C6, amended. For all points \<open>sA\<close>, \<open>sB\<close> and every non-empty list such that,
  for each point of the list, no step of the \<open>int\<close> expression overflows and the extremal
  distance is in the range of \<open>int\<close>, and so whenever \<open>sA\<close>, \<open>sB\<close> and the points of
  the list are in the generator's range, \<open>calculateFurthestPoint\<close> returns an element
  \<open>r\<close> of the list of greatest extremal distance, and the first such in the order of the
  list: every element before \<open>r\<close> has a strictly smaller extremal distance than \<open>r\<close>,
  every element after \<open>r\<close> one that is not greater. Nothing is stated of an input on
  which a step overflows, which is undefined in C++.
\<close>

theorem calculateFurthestPoint_exact_first_maximum:
  assumes "list \<noteq> []"
  shows "((\<forall>p\<in>set list. list_all inIntRange (determinantSteps sA sB p)
                          \<and> inIntRange (extremalDistance sA sB p)) \<longrightarrow>
           (\<exists>before r after. list = before @ r # after
              \<and> calculateFurthestPoint sA sB list = Inr r
              \<and> (\<forall>p\<in>set before. extremalDistance sA sB p < extremalDistance sA sB r)
              \<and> (\<forall>p\<in>set after. extremalDistance sA sB p \<le> extremalDistance sA sB r)))
         \<and> (inWindow sA \<and> inWindow sB \<and> (\<forall>p\<in>set list. inWindow p) \<longrightarrow>
           (\<exists>before r after. list = before @ r # after
              \<and> calculateFurthestPoint sA sB list = Inr r
              \<and> (\<forall>p\<in>set before. extremalDistance sA sB p < extremalDistance sA sB r)
              \<and> (\<forall>p\<in>set after. extremalDistance sA sB p \<le> extremalDistance sA sB r)))"
proof -
  have exact: "\<exists>before r after. list = before @ r # after
              \<and> calculateFurthestPoint sA sB list = Inr r
              \<and> (\<forall>p\<in>set before. extremalDistance sA sB p < extremalDistance sA sB r)
              \<and> (\<forall>p\<in>set after. extremalDistance sA sB p \<le> extremalDistance sA sB r)"
    if ok: "\<forall>p\<in>set list. list_all inIntRange (determinantSteps sA sB p)
                          \<and> inIntRange (extremalDistance sA sB p)"
  proof -
    from calculateFurthestPoint_split [OF assms, of sA sB]
    obtain before r after where d: "list = before @ r # after"
        "calculateFurthestPoint sA sB list = Inr r"
        "\<forall>p\<in>set before. abs_int (determinant sA sB p) <s abs_int (determinant sA sB r)"
        "\<forall>p\<in>set after. abs_int (determinant sA sB p) <=s abs_int (determinant sA sB r)"
      by blast
    have "sint (abs_int (determinant sA sB p)) = extremalDistance sA sB p" if "p \<in> set list" for p
      using ok that by (simp add: abs_determinant_exact)
    then have "\<forall>p\<in>set before. extremalDistance sA sB p < extremalDistance sA sB r"
      and "\<forall>p\<in>set after. extremalDistance sA sB p \<le> extremalDistance sA sB r"
      using d(1,3,4) by (simp_all add: word_sless_alt word_sle_eq)
    with d(1,2) show ?thesis by blast
  qed
  have window: "\<forall>p\<in>set list. list_all inIntRange (determinantSteps sA sB p)
                          \<and> inIntRange (extremalDistance sA sB p)"
    if "inWindow sA \<and> inWindow sB \<and> (\<forall>p\<in>set list. inWindow p)"
    using that by (simp add: window_steps_in_range)
  from exact window show ?thesis by blast
qed

text \<open>
  A list with a tie between \<open>(5,-5)\<close> and \<open>(3,5)\<close>, where the earlier one is returned,
  and a list in the generator's range.
\<close>

theorem calculateFurthestPoint_exact_first_maximum_witness:
  "[\<lparr>x = 1, y = 1\<rparr>, \<lparr>x = 5, y = - 5\<rparr>, \<lparr>x = 2, y = 3\<rparr>, \<lparr>x = 3, y = 5\<rparr>] \<noteq> []
   \<and> list_all (\<lambda>p. list_all inIntRange (determinantSteps \<lparr>x = 0, y = 0\<rparr> \<lparr>x = 10, y = 0\<rparr> p)
                     \<and> inIntRange (extremalDistance \<lparr>x = 0, y = 0\<rparr> \<lparr>x = 10, y = 0\<rparr> p))
        [\<lparr>x = 1, y = 1\<rparr>, \<lparr>x = 5, y = - 5\<rparr>, \<lparr>x = 2, y = 3\<rparr>, \<lparr>x = 3, y = 5\<rparr>]
   \<and> calculateFurthestPoint \<lparr>x = 0, y = 0\<rparr> \<lparr>x = 10, y = 0\<rparr>
        [\<lparr>x = 1, y = 1\<rparr>, \<lparr>x = 5, y = - 5\<rparr>, \<lparr>x = 2, y = 3\<rparr>, \<lparr>x = 3, y = 5\<rparr>] = Inr \<lparr>x = 5, y = - 5\<rparr>
   \<and> (\<exists>before r after.
         [\<lparr>x = 1, y = 1\<rparr>, \<lparr>x = 5, y = - 5\<rparr>, \<lparr>x = 2, y = 3\<rparr>, \<lparr>x = 3, y = 5\<rparr>] = before @ r # after
         \<and> calculateFurthestPoint \<lparr>x = 0, y = 0\<rparr> \<lparr>x = 10, y = 0\<rparr>
              [\<lparr>x = 1, y = 1\<rparr>, \<lparr>x = 5, y = - 5\<rparr>, \<lparr>x = 2, y = 3\<rparr>, \<lparr>x = 3, y = 5\<rparr>] = Inr r
         \<and> (\<forall>p\<in>set before. extremalDistance \<lparr>x = 0, y = 0\<rparr> \<lparr>x = 10, y = 0\<rparr> p
                              < extremalDistance \<lparr>x = 0, y = 0\<rparr> \<lparr>x = 10, y = 0\<rparr> r)
         \<and> (\<forall>p\<in>set after. extremalDistance \<lparr>x = 0, y = 0\<rparr> \<lparr>x = 10, y = 0\<rparr> p
                             \<le> extremalDistance \<lparr>x = 0, y = 0\<rparr> \<lparr>x = 10, y = 0\<rparr> r))
   \<and> inWindow \<lparr>x = 1269, y = 10\<rparr> \<and> inWindow \<lparr>x = 10, y = 10\<rparr>
   \<and> list_all inWindow [\<lparr>x = 500, y = 300\<rparr>, \<lparr>x = 700, y = 709\<rparr>, \<lparr>x = 20, y = 709\<rparr>]
   \<and> calculateFurthestPoint \<lparr>x = 1269, y = 10\<rparr> \<lparr>x = 10, y = 10\<rparr>
        [\<lparr>x = 500, y = 300\<rparr>, \<lparr>x = 700, y = 709\<rparr>, \<lparr>x = 20, y = 709\<rparr>] = Inr \<lparr>x = 700, y = 709\<rparr>
   \<and> (\<exists>before r after.
         [\<lparr>x = 500, y = 300\<rparr>, \<lparr>x = 700, y = 709\<rparr>, \<lparr>x = 20, y = 709\<rparr>] = before @ r # after
         \<and> calculateFurthestPoint \<lparr>x = 1269, y = 10\<rparr> \<lparr>x = 10, y = 10\<rparr>
              [\<lparr>x = 500, y = 300\<rparr>, \<lparr>x = 700, y = 709\<rparr>, \<lparr>x = 20, y = 709\<rparr>] = Inr r
         \<and> (\<forall>p\<in>set before. extremalDistance \<lparr>x = 1269, y = 10\<rparr> \<lparr>x = 10, y = 10\<rparr> p
                              < extremalDistance \<lparr>x = 1269, y = 10\<rparr> \<lparr>x = 10, y = 10\<rparr> r)
         \<and> (\<forall>p\<in>set after. extremalDistance \<lparr>x = 1269, y = 10\<rparr> \<lparr>x = 10, y = 10\<rparr> p
                             \<le> extremalDistance \<lparr>x = 1269, y = 10\<rparr> \<lparr>x = 10, y = 10\<rparr> r))"
proof -
  have h1: "[\<lparr>x = 1, y = 1\<rparr>, \<lparr>x = 5, y = - 5\<rparr>, \<lparr>x = 2, y = 3\<rparr>, \<lparr>x = 3, y = 5\<rparr>] \<noteq> ([] :: Point list)"
    by simp
  have h2: "\<forall>p\<in>set [\<lparr>x = 1, y = 1\<rparr>, \<lparr>x = 5, y = - 5\<rparr>, \<lparr>x = 2, y = 3\<rparr>, \<lparr>x = 3, y = 5\<rparr>].
         list_all inIntRange (determinantSteps \<lparr>x = 0, y = 0\<rparr> \<lparr>x = 10, y = 0\<rparr> p)
         \<and> inIntRange (extremalDistance \<lparr>x = 0, y = 0\<rparr> \<lparr>x = 10, y = 0\<rparr> p)"
    by code_simp
  have v: "calculateFurthestPoint \<lparr>x = 0, y = 0\<rparr> \<lparr>x = 10, y = 0\<rparr>
        [\<lparr>x = 1, y = 1\<rparr>, \<lparr>x = 5, y = - 5\<rparr>, \<lparr>x = 2, y = 3\<rparr>, \<lparr>x = 3, y = 5\<rparr>] = Inr \<lparr>x = 5, y = - 5\<rparr>"
    by code_simp
  have g1: "[\<lparr>x = 500, y = 300\<rparr>, \<lparr>x = 700, y = 709\<rparr>, \<lparr>x = 20, y = 709\<rparr>] \<noteq> ([] :: Point list)"
    by simp
  have g2: "inWindow \<lparr>x = 1269, y = 10\<rparr> \<and> inWindow \<lparr>x = 10, y = 10\<rparr>
     \<and> (\<forall>p\<in>set [\<lparr>x = 500, y = 300\<rparr>, \<lparr>x = 700, y = 709\<rparr>, \<lparr>x = 20, y = 709\<rparr>]. inWindow p)"
    by code_simp
  have u: "calculateFurthestPoint \<lparr>x = 1269, y = 10\<rparr> \<lparr>x = 10, y = 10\<rparr>
        [\<lparr>x = 500, y = 300\<rparr>, \<lparr>x = 700, y = 709\<rparr>, \<lparr>x = 20, y = 709\<rparr>] = Inr \<lparr>x = 700, y = 709\<rparr>"
    by code_simp
  from calculateFurthestPoint_exact_first_maximum [OF h1, of "\<lparr>x = 0, y = 0\<rparr>" "\<lparr>x = 10, y = 0\<rparr>"]
    calculateFurthestPoint_exact_first_maximum [OF g1, of "\<lparr>x = 1269, y = 10\<rparr>" "\<lparr>x = 10, y = 10\<rparr>"]
  show ?thesis using h1 h2 v g2 u unfolding list_all_iff by blast
qed

text \<open>
  Claim C9. For three points in the generator's range (\<open>x\<close> from \<open>windowMargin\<close> up to
  \<open>windowMargin + pointXmax\<close>, \<open>y\<close> from \<open>windowMargin\<close> up to
  \<open>windowMargin + pointYmax\<close>) every intermediate result of the determinant expression
  lies in the \<open>int\<close> range, as does its absolute value, and the 32-bit results equal the
  exact integers.
\<close>

theorem determinant_no_overflow_in_window:
  assumes "inWindow a" and "inWindow b" and "inWindow c"
  shows "list_all inIntRange (determinantSteps a b c)
         \<and> inIntRange (extremalDistance a b c)
         \<and> sint (determinant a b c) = orientationSign a b c
         \<and> sint (abs_int (determinant a b c)) = extremalDistance a b c"
  using window_steps_in_range [OF assms]
  by (simp add: determinant_exact abs_determinant_exact)

text \<open>Three corners of the generator's range.\<close>

theorem determinant_no_overflow_in_window_witness:
  "inWindow \<lparr>x = 10, y = 10\<rparr> \<and> inWindow \<lparr>x = 1269, y = 709\<rparr> \<and> inWindow \<lparr>x = 10, y = 709\<rparr>
   \<and> list_all inIntRange (determinantSteps \<lparr>x = 10, y = 10\<rparr> \<lparr>x = 1269, y = 709\<rparr> \<lparr>x = 10, y = 709\<rparr>)
   \<and> sint (determinant \<lparr>x = 10, y = 10\<rparr> \<lparr>x = 1269, y = 709\<rparr> \<lparr>x = 10, y = 709\<rparr>)
       = orientationSign \<lparr>x = 10, y = 10\<rparr> \<lparr>x = 1269, y = 709\<rparr> \<lparr>x = 10, y = 709\<rparr>
   \<and> sint (abs_int (determinant \<lparr>x = 10, y = 10\<rparr> \<lparr>x = 1269, y = 709\<rparr> \<lparr>x = 10, y = 709\<rparr>))
       = extremalDistance \<lparr>x = 10, y = 10\<rparr> \<lparr>x = 1269, y = 709\<rparr> \<lparr>x = 10, y = 709\<rparr>"
proof -
  have h1: "inWindow \<lparr>x = 10, y = 10\<rparr>" by code_simp
  have h2: "inWindow \<lparr>x = 1269, y = 709\<rparr>" by code_simp
  have h3: "inWindow \<lparr>x = 10, y = 709\<rparr>" by code_simp
  from determinant_no_overflow_in_window [OF h1 h2 h3] h1 h2 h3
  show ?thesis by blast
qed

section \<open>The traversal\<close>

text \<open>
  Claim C7. For every non-empty generated point list (so for every input with at least two
  distinct points) \<open>randomizeInput\<close> returns an object from which finitely many calls
  of \<open>step\<close>, none of them running into undefined behaviour or looping, reach a call that
  returns \<open>false\<close>; the loop of \<open>main\<close> returns. Down the tree the point sets strictly
  shrink: every cell with a parent holds fewer points than the parent, which bounds the
  visits.
\<close>

theorem step_reaches_no_more_steps:
  assumes "generated \<noteq> []"
  shows "\<exists>q0 n q1 qf. randomizeInputWith generated q = Inr q0
           \<and> afterSteps n q0 = Some q1 \<and> step q1 = Some (Inr (False, qf))
           \<and> runSteps q0 = Some (Inr qf)
           \<and> (\<forall>a < length (store qf). \<forall>p. prevStep (store qf ! a) = Some p \<longrightarrow>
                  p < a \<and> length (pointSet (store qf ! a)) < length (pointSet (store qf ! p)))"
proof -
  from randomizeInputWith_returns [OF assms] obtain q0
    where q0: "randomizeInputWith generated q = Inr q0" by blast
  from runSteps_terminates [OF randomizeInputWith_wellFormed [OF q0]]
  obtain n q1 qf where r: "afterSteps n q0 = Some q1" "step q1 = Some (Inr (False, qf))"
    "runSteps q0 = Some (Inr qf)"
    by blast
  from r(1,2) have "afterSteps (Suc n) q0 = Some qf" by (rule afterSteps_Suc)
  from afterSteps_clean [OF q0 this]
  have clean: "childrenClean (store qf)" and root: "rootHoldsBoth (store qf)" .
  have "p < a \<and> length (pointSet (store qf ! a)) < length (pointSet (store qf ! p))"
    if a: "a < length (store qf)" and p: "prevStep (store qf ! a) = Some p" for a p
  proof (cases "a = 0")
    case True
    with root p show ?thesis by (simp add: rootHoldsBoth_def)
  next
    case False
    with clean a have "childOk (store qf) a" by (simp add: childrenClean_def)
    from childOk_parent(3) [OF this p] show ?thesis .
  qed
  with q0 r show ?thesis by blast
qed

text \<open>On the three example points the fifth call returns \<open>false\<close>.\<close>

theorem step_reaches_no_more_steps_witness:
  "examplePoints \<noteq> []
   \<and> (\<exists>q0 n q1 qf. randomizeInputWith examplePoints newQuickHull = Inr q0
           \<and> afterSteps n q0 = Some q1 \<and> step q1 = Some (Inr (False, qf))
           \<and> runSteps q0 = Some (Inr qf))
   \<and> randomizeInputWith examplePoints newQuickHull = Inr exampleStart
   \<and> afterSteps 4 exampleStart = Some (exampleAfter 4)
   \<and> step (exampleAfter 4) = Some (Inr (False, exampleAfter 5))
   \<and> runSteps exampleStart = Some (Inr (exampleAfter 5))"
proof -
  have h: "examplePoints \<noteq> []" by (simp add: examplePoints_def)
  from step_reaches_no_more_steps [OF h, of newQuickHull] h ex_start ex4 ex5 ex6
  show ?thesis by blast
qed

text \<open>
  Claim C10. Once a call of \<open>step\<close> has returned \<open>false\<close>, every later call returns
  \<open>false\<close> as well and leaves the whole object as it was: the store, the cursor, the
  hull points and every other member.
\<close>

theorem step_false_is_stable:
  assumes "step q = Some (Inr (False, q'))"
  shows "step q' = Some (Inr (False, q')) \<and> afterSteps n q' = Some q'"
proof -
  have again: "step q' = Some (Inr (False, q'))"
    using assms by (rule step_finished_again)
  have "afterSteps n q' = Some q'"
    by (induction n) (simp_all add: again)
  with again show ?thesis by simp
qed

text \<open>The fifth and the later calls on the example.\<close>

theorem step_false_is_stable_witness:
  "step (exampleAfter 4) = Some (Inr (False, exampleAfter 5))
   \<and> step (exampleAfter 5) = Some (Inr (False, exampleAfter 5))
   \<and> afterSteps 3 (exampleAfter 5) = Some (exampleAfter 5)"
  using step_false_is_stable [OF ex5, of 3] ex5 by simp

section \<open>Starting a computation\<close>

text \<open>
  Claim C8 says that \<open>randomizeInput\<close> with zero points fails with an explicit error. It
  has no check: the loop makes no point, the sort leaves the vector empty, and
  \<open>basePointList[0]\<close> is read out of range, which is undefined behaviour and not an
  error that the program signals.
\<close>

theorem randomizeInput_zero_points:
  "randomizeInput 0 (\<lambda>k. 0) newQuickHull = Inl VectorIndexOutOfRange"
  by (simp add: randomizeInput_def randomPoints_def randomizeInputWith_Nil)

text \<open>
  Claim C8, amended. With a \<open>pointCount\<close> of zero (or less) \<open>randomizeInput\<close> performs no
  check and signals no error: it runs into the unchecked read of element 0 of the empty
  vector. With a positive \<open>pointCount\<close> it returns normally.
\<close>

theorem randomizeInput_unchecked:
  "(pointCount \<le> 0 \<longrightarrow> randomizeInput pointCount rnd q = Inl VectorIndexOutOfRange)
   \<and> (0 < pointCount \<longrightarrow> (\<exists>q'. randomizeInput pointCount rnd q = Inr q'))"
proof (intro conjI impI)
  assume "pointCount \<le> 0"
  then have "randomPoints pointCount rnd = []" by (simp add: randomPoints_Nil)
  then show "randomizeInput pointCount rnd q = Inl VectorIndexOutOfRange"
    by (simp add: randomizeInput_def randomizeInputWith_Nil)
next
  assume "0 < pointCount"
  then have "randomPoints pointCount rnd \<noteq> []" by (simp add: randomPoints_Nil)
  from randomizeInputWith_returns [OF this]
  show "\<exists>q'. randomizeInput pointCount rnd q = Inr q'"
    by (simp add: randomizeInput_def)
qed

text \<open>A call without points and a call with two.\<close>

theorem randomizeInput_unchecked_witness:
  "(- 1 :: int) \<le> 0
   \<and> randomizeInput (- 1) (\<lambda>k. of_nat k * 1000 + 7) newQuickHull = Inl VectorIndexOutOfRange
   \<and> (0 :: int) < 2
   \<and> (\<exists>q'. randomizeInput 2 (\<lambda>k. of_nat k * 1000 + 7) newQuickHull = Inr q')"
  using randomizeInput_unchecked [of "- 1" "\<lambda>k. of_nat k * 1000 + 7" newQuickHull]
    randomizeInput_unchecked [of 2 "\<lambda>k. of_nat k * 1000 + 7" newQuickHull]
  by simp

section \<open>What a visit does\<close>

text \<open>
  Claim C1 says that a call at a non-empty cell treats \<open>SDP_FirstIteration\<close> like
  \<open>SDP_RecurseOne\<close>, creating both children and appending the furthest point. At the
  root of the example, in \<open>SDP_FirstIteration\<close>, the call computes the furthest point
  \<open>(2,-3)\<close> but appends nothing and creates no cell.
\<close>

theorem first_iteration_appends_nothing:
  "randomizeInputWith examplePoints newQuickHull = Inr exampleStart
   \<and> nextStep exampleStart = Some 0
   \<and> progress (store exampleStart ! 0) = SDP_FirstIteration
   \<and> pointSet (store exampleStart ! 0) = [\<lparr>x = 0, y = 0\<rparr>, \<lparr>x = 2, y = - 3\<rparr>, \<lparr>x = 4, y = 0\<rparr>]
   \<and> calculateFurthestPoint (segmentA (store exampleStart ! 0)) (segmentB (store exampleStart ! 0))
        (pointSet (store exampleStart ! 0)) = Inr \<lparr>x = 2, y = - 3\<rparr>
   \<and> hullPoints exampleStart = [\<lparr>x = 0, y = 0\<rparr>, \<lparr>x = 4, y = 0\<rparr>]
   \<and> length (store exampleStart) = 3
   \<and> step exampleStart = Some (Inr (True, exampleAfter 1))
   \<and> hullPoints (exampleAfter 1) = [\<lparr>x = 0, y = 0\<rparr>, \<lparr>x = 4, y = 0\<rparr>]
   \<and> length (store (exampleAfter 1)) = 3"
  by code_simp

text \<open>
  Claim C1, amended. A call at a non-empty cell in \<open>SDP_RecurseOne\<close> creates both
  children, by partitioning the cell's points against the segments from \<open>segmentA\<close> to
  the furthest point and from the furthest point to \<open>segmentB\<close>, and appends the furthest
  point to \<open>hullPoints\<close>. A call at a non-empty cell in \<open>SDP_FirstIteration\<close> (the root)
  creates no cell, keeps the children that \<open>randomizeInput\<close> gave it and appends nothing.

  Of every call that returns: let \<open>v\<close> be the cell at which the loop of the call stops.
  If the call returns true and \<open>v\<close> is in \<open>SDP_RecurseOne\<close> (the first visit of \<open>v\<close>), the
  call appends exactly the furthest point of \<open>v\<close> and creates exactly the two children of
  \<open>v\<close>; in every other case (\<open>v\<close> in \<open>SDP_FirstIteration\<close> or in \<open>SDP_RecurseTwo\<close>, or
  the call returns false) it appends nothing and creates no cell.

  \<open>randomizeInput\<close> sets \<open>hullPoints\<close> to the two extreme points and creates the root's
  children from the segments between them, in both directions. At every point of the
  computation that follows, \<open>hullPoints\<close> holds, as a multiset, these two points and
  exactly one furthest point for every visited cell other than the root: for every cell
  with a parent and a non-empty point set whose progress is past \<open>SDP_RecurseOne\<close>. The
  root is the only cell without parent.
\<close>

theorem step_appends_in_RecurseOne_only:
  "(nextStep q = Some a \<and> a < length (store q) \<and> pointSet (store q ! a) \<noteq> []
      \<and> progress (store q ! a) = SDP_RecurseOne \<longrightarrow>
      (\<exists>f q'. calculateFurthestPoint (segmentA (store q ! a)) (segmentB (store q ! a))
                 (pointSet (store q ! a)) = Inr f
         \<and> step q = Some (Inr (True, q'))
         \<and> length (store q') = length (store q) + 2
         \<and> store q' ! length (store q) =
              childCell a (segmentA (store q ! a)) f (pointSet (store q ! a))
         \<and> store q' ! (length (store q) + 1) =
              childCell a f (segmentB (store q ! a)) (pointSet (store q ! a))
         \<and> recursiveOne (store q' ! a) = Some (length (store q) + 1)
         \<and> recursiveTwo (store q' ! a) = Some (length (store q))
         \<and> hullPoints q' = hullPoints q @ [f]))
   \<and> (nextStep q = Some a \<and> a < length (store q) \<and> pointSet (store q ! a) \<noteq> []
      \<and> progress (store q ! a) = SDP_FirstIteration \<longrightarrow>
      (\<exists>q'. step q = Some (Inr (True, q'))
         \<and> length (store q') = length (store q)
         \<and> recursiveOne (store q' ! a) = recursiveOne (store q ! a)
         \<and> recursiveTwo (store q' ! a) = recursiveTwo (store q ! a)
         \<and> hullPoints q' = hullPoints q))
   \<and> (step q = Some (Inr (b, q1)) \<longrightarrow>
        (\<exists>c popped v. nextStep q = Some c \<and> v < length (store q)
           \<and> loopStopsAt (markEmpty (store q) c) c popped v b
           \<and> (if b \<and> progress (store q ! v) = SDP_RecurseOne then
                 (\<exists>f. calculateFurthestPoint (segmentA (store q ! v)) (segmentB (store q ! v))
                          (pointSet (store q ! v)) = Inr f
                    \<and> hullPoints q1 = hullPoints q @ [f]
                    \<and> length (store q1) = length (store q) + 2
                    \<and> store q1 ! length (store q) =
                         childCell v (segmentA (store q ! v)) f (pointSet (store q ! v))
                    \<and> store q1 ! (length (store q) + 1) =
                         childCell v f (segmentB (store q ! v)) (pointSet (store q ! v)))
               else hullPoints q1 = hullPoints q \<and> length (store q1) = length (store q))))
   \<and> (randomizeInputWith generated q = Inr q0 \<longrightarrow>
        hullPoints q0 = [hd (sortPoints generated), last (sortPoints generated)]
        \<and> nextStep q0 = Some 0
        \<and> store q0 =
            [rootCell (sortPoints generated),
             childCell 0 (hd (sortPoints generated)) (last (sortPoints generated))
               (sortPoints generated),
             childCell 0 (last (sortPoints generated)) (hd (sortPoints generated))
               (sortPoints generated)])
   \<and> (randomizeInputWith generated q = Inr q0 \<and> afterSteps n q0 = Some qn \<longrightarrow>
        mset (hullPoints qn)
          = mset ([hd (sortPoints generated), last (sortPoints generated)]
                  @ concat (map appended (store qn)))
        \<and> prevStep (store qn ! 0) = None
        \<and> (\<forall>i < length (store qn). 0 < i \<longrightarrow> prevStep (store qn ! i) \<noteq> None))"
proof (intro conjI impI)
  assume h: "nextStep q = Some a \<and> a < length (store q) \<and> pointSet (store q ! a) \<noteq> []
      \<and> progress (store q ! a) = SDP_RecurseOne"
  then have "nextStep q = Some a" "a < length (store q)" "pointSet (store q ! a) \<noteq> []"
    "progress (store q ! a) = SDP_RecurseOne" by simp_all
  from step_RecurseOne [OF this]
  show "\<exists>f q'. calculateFurthestPoint (segmentA (store q ! a)) (segmentB (store q ! a))
                 (pointSet (store q ! a)) = Inr f
         \<and> step q = Some (Inr (True, q'))
         \<and> length (store q') = length (store q) + 2
         \<and> store q' ! length (store q) =
              childCell a (segmentA (store q ! a)) f (pointSet (store q ! a))
         \<and> store q' ! (length (store q) + 1) =
              childCell a f (segmentB (store q ! a)) (pointSet (store q ! a))
         \<and> recursiveOne (store q' ! a) = Some (length (store q) + 1)
         \<and> recursiveTwo (store q' ! a) = Some (length (store q))
         \<and> hullPoints q' = hullPoints q @ [f]"
    by blast
next
  assume h: "nextStep q = Some a \<and> a < length (store q) \<and> pointSet (store q ! a) \<noteq> []
      \<and> progress (store q ! a) = SDP_FirstIteration"
  then have f: "nextStep q = Some a" "a < length (store q)" "pointSet (store q ! a) \<noteq> []"
    "progress (store q ! a) = SDP_FirstIteration" by simp_all
  from step_FirstIteration [OF f] obtain q' where s: "step q = Some (Inr (True, q'))"
    and st: "store q' = (store q)[a := (store q ! a)\<lparr>progress := SDP_RecurseTwo\<rparr>]"
    and hp: "hullPoints q' = hullPoints q"
    by blast
  have "length (store q') = length (store q)"
    "recursiveOne (store q' ! a) = recursiveOne (store q ! a)"
    "recursiveTwo (store q' ! a) = recursiveTwo (store q ! a)"
    using f(2) by (simp_all add: st)
  with s hp show "\<exists>q'. step q = Some (Inr (True, q'))
         \<and> length (store q') = length (store q)
         \<and> recursiveOne (store q' ! a) = recursiveOne (store q ! a)
         \<and> recursiveTwo (store q' ! a) = recursiveTwo (store q ! a)
         \<and> hullPoints q' = hullPoints q"
    by blast
next
  assume "step q = Some (Inr (b, q1))"
  then show "\<exists>c popped v. nextStep q = Some c \<and> v < length (store q)
           \<and> loopStopsAt (markEmpty (store q) c) c popped v b
           \<and> (if b \<and> progress (store q ! v) = SDP_RecurseOne then
                 (\<exists>f. calculateFurthestPoint (segmentA (store q ! v)) (segmentB (store q ! v))
                          (pointSet (store q ! v)) = Inr f
                    \<and> hullPoints q1 = hullPoints q @ [f]
                    \<and> length (store q1) = length (store q) + 2
                    \<and> store q1 ! length (store q) =
                         childCell v (segmentA (store q ! v)) f (pointSet (store q ! v))
                    \<and> store q1 ! (length (store q) + 1) =
                         childCell v f (segmentB (store q ! v)) (pointSet (store q ! v)))
               else hullPoints q1 = hullPoints q \<and> length (store q1) = length (store q))"
    by (rule step_append)
next
  assume r: "randomizeInputWith generated q = Inr q0"
  then have ne: "generated \<noteq> []"
    by (auto simp: randomizeInputWith_def Let_def split: if_splits)
  from randomizeInputWith_start [OF ne, of q] r
  show "hullPoints q0 = [hd (sortPoints generated), last (sortPoints generated)]"
    and "nextStep q0 = Some 0"
    and "store q0 =
            [rootCell (sortPoints generated),
             childCell 0 (hd (sortPoints generated)) (last (sortPoints generated))
               (sortPoints generated),
             childCell 0 (last (sortPoints generated)) (hd (sortPoints generated))
               (sortPoints generated)]"
    by auto
next
  assume h: "randomizeInputWith generated q = Inr q0 \<and> afterSteps n q0 = Some qn"
  then have r: "randomizeInputWith generated q = Inr q0" and s: "afterSteps n q0 = Some qn"
    by simp_all
  from start_account [OF r] have ok: "progressOk (store q0)"
    and e: "mset (hullPoints q0)
             = mset ([hd (sortPoints generated), last (sortPoints generated)] @ account (store q0))"
    by simp_all
  from afterSteps_account [OF s ok e]
  show "mset (hullPoints qn)
          = mset ([hd (sortPoints generated), last (sortPoints generated)]
                  @ concat (map appended (store qn)))"
    by (simp add: account_def)
  from afterSteps_parents [OF r s]
  show "prevStep (store qn ! 0) = None"
    and "\<forall>i < length (store qn). 0 < i \<longrightarrow> prevStep (store qn ! i) \<noteq> None"
    by simp_all
qed

text \<open>
  The third, the first and the second call of the example, its start and its end: the
  third call is the first visit of cell 1 and appends \<open>(2,-3)\<close>, the second call visits
  the root in \<open>SDP_RecurseTwo\<close> and appends nothing.
\<close>

theorem step_appends_in_RecurseOne_only_witness:
  "nextStep (exampleAfter 2) = Some 1 \<and> 1 < length (store (exampleAfter 2))
   \<and> pointSet (store (exampleAfter 2) ! 1) \<noteq> []
   \<and> progress (store (exampleAfter 2) ! 1) = SDP_RecurseOne
   \<and> (\<exists>f q'. calculateFurthestPoint (segmentA (store (exampleAfter 2) ! 1))
                 (segmentB (store (exampleAfter 2) ! 1))
                 (pointSet (store (exampleAfter 2) ! 1)) = Inr f
         \<and> step (exampleAfter 2) = Some (Inr (True, q'))
         \<and> length (store q') = length (store (exampleAfter 2)) + 2
         \<and> hullPoints q' = hullPoints (exampleAfter 2) @ [f])
   \<and> nextStep exampleStart = Some 0 \<and> 0 < length (store exampleStart)
   \<and> pointSet (store exampleStart ! 0) \<noteq> []
   \<and> progress (store exampleStart ! 0) = SDP_FirstIteration
   \<and> (\<exists>q'. step exampleStart = Some (Inr (True, q'))
         \<and> length (store q') = length (store exampleStart)
         \<and> hullPoints q' = hullPoints exampleStart)
   \<and> step (exampleAfter 2) = Some (Inr (True, exampleAfter 3))
   \<and> loopStopsAt (markEmpty (store (exampleAfter 2)) 1) 1 [] 1 True
   \<and> (\<exists>f. calculateFurthestPoint (segmentA (store (exampleAfter 2) ! 1))
               (segmentB (store (exampleAfter 2) ! 1))
               (pointSet (store (exampleAfter 2) ! 1)) = Inr f
         \<and> hullPoints (exampleAfter 3) = hullPoints (exampleAfter 2) @ [f]
         \<and> length (store (exampleAfter 3)) = length (store (exampleAfter 2)) + 2)
   \<and> step (exampleAfter 1) = Some (Inr (True, exampleAfter 2))
   \<and> nextStep (exampleAfter 1) = Some 2
   \<and> loopStopsAt (markEmpty (store (exampleAfter 1)) 2) 2 [2] 0 True
   \<and> progress (store (exampleAfter 1) ! 0) = SDP_RecurseTwo
   \<and> hullPoints (exampleAfter 2) = hullPoints (exampleAfter 1)
   \<and> length (store (exampleAfter 2)) = length (store (exampleAfter 1))
   \<and> randomizeInputWith examplePoints newQuickHull = Inr exampleStart
   \<and> hullPoints exampleStart = [hd (sortPoints examplePoints), last (sortPoints examplePoints)]
   \<and> afterSteps 5 exampleStart = Some (exampleAfter 5)
   \<and> mset (hullPoints (exampleAfter 5))
        = mset ([hd (sortPoints examplePoints), last (sortPoints examplePoints)]
                @ concat (map appended (store (exampleAfter 5))))
   \<and> hullPoints (exampleAfter 5) = [\<lparr>x = 0, y = 0\<rparr>, \<lparr>x = 4, y = 0\<rparr>, \<lparr>x = 2, y = - 3\<rparr>]
   \<and> concat (map appended (store (exampleAfter 5))) = [\<lparr>x = 2, y = - 3\<rparr>]"
proof -
  note t1 = step_appends_in_RecurseOne_only
              [of "exampleAfter 2" 1 True "exampleAfter 3" examplePoints exampleStart 5
                  "exampleAfter 5"]
  note t2 = step_appends_in_RecurseOne_only
              [of exampleStart 0 True "exampleAfter 1" examplePoints exampleStart 5
                  "exampleAfter 5"]
  note t3 = step_appends_in_RecurseOne_only
              [of newQuickHull 0 True newQuickHull examplePoints exampleStart 5
                  "exampleAfter 5"]
  note t4 = step_appends_in_RecurseOne_only
              [of "exampleAfter 1" 2 True "exampleAfter 2" examplePoints exampleStart 5
                  "exampleAfter 5"]
  from t1 ex2_cursor have c1: "\<exists>f q'. calculateFurthestPoint (segmentA (store (exampleAfter 2) ! 1))
                 (segmentB (store (exampleAfter 2) ! 1))
                 (pointSet (store (exampleAfter 2) ! 1)) = Inr f
         \<and> step (exampleAfter 2) = Some (Inr (True, q'))
         \<and> length (store q') = length (store (exampleAfter 2)) + 2
         \<and> hullPoints q' = hullPoints (exampleAfter 2) @ [f]"
    by blast
  from t2 ex0_cursor have c2: "\<exists>q'. step exampleStart = Some (Inr (True, q'))
         \<and> length (store q') = length (store exampleStart)
         \<and> hullPoints q' = hullPoints exampleStart"
    by blast
  from t1 ex2 obtain c popped v where
    k: "nextStep (exampleAfter 2) = Some c"
       "loopStopsAt (markEmpty (store (exampleAfter 2)) c) c popped v True"
    and i: "if True \<and> progress (store (exampleAfter 2) ! v) = SDP_RecurseOne then
                 (\<exists>f. calculateFurthestPoint (segmentA (store (exampleAfter 2) ! v))
                          (segmentB (store (exampleAfter 2) ! v))
                          (pointSet (store (exampleAfter 2) ! v)) = Inr f
                    \<and> hullPoints (exampleAfter 3) = hullPoints (exampleAfter 2) @ [f]
                    \<and> length (store (exampleAfter 3)) = length (store (exampleAfter 2)) + 2
                    \<and> store (exampleAfter 3) ! length (store (exampleAfter 2)) =
                         childCell v (segmentA (store (exampleAfter 2) ! v)) f
                           (pointSet (store (exampleAfter 2) ! v))
                    \<and> store (exampleAfter 3) ! (length (store (exampleAfter 2)) + 1) =
                         childCell v f (segmentB (store (exampleAfter 2) ! v))
                           (pointSet (store (exampleAfter 2) ! v)))
               else hullPoints (exampleAfter 3) = hullPoints (exampleAfter 2)
                    \<and> length (store (exampleAfter 3)) = length (store (exampleAfter 2))"
    by blast
  from k(1) ex2_loop have c: "c = 1" by simp
  from k(2) ex2_loop loopStopsAt_unique have v: "v = 1" unfolding c by blast
  from ex2_loop have p: "True \<and> progress (store (exampleAfter 2) ! 1) = SDP_RecurseOne"
    by simp
  from i have c3: "\<exists>f. calculateFurthestPoint (segmentA (store (exampleAfter 2) ! 1))
               (segmentB (store (exampleAfter 2) ! 1))
               (pointSet (store (exampleAfter 2) ! 1)) = Inr f
         \<and> hullPoints (exampleAfter 3) = hullPoints (exampleAfter 2) @ [f]
         \<and> length (store (exampleAfter 3)) = length (store (exampleAfter 2)) + 2"
    unfolding v if_P [OF p] by blast
  from t4 ex1 obtain d popped2 w where
    k2: "nextStep (exampleAfter 1) = Some d"
        "loopStopsAt (markEmpty (store (exampleAfter 1)) d) d popped2 w True"
    and i2: "if True \<and> progress (store (exampleAfter 1) ! w) = SDP_RecurseOne then
                 (\<exists>f. calculateFurthestPoint (segmentA (store (exampleAfter 1) ! w))
                          (segmentB (store (exampleAfter 1) ! w))
                          (pointSet (store (exampleAfter 1) ! w)) = Inr f
                    \<and> hullPoints (exampleAfter 2) = hullPoints (exampleAfter 1) @ [f]
                    \<and> length (store (exampleAfter 2)) = length (store (exampleAfter 1)) + 2
                    \<and> store (exampleAfter 2) ! length (store (exampleAfter 1)) =
                         childCell w (segmentA (store (exampleAfter 1) ! w)) f
                           (pointSet (store (exampleAfter 1) ! w))
                    \<and> store (exampleAfter 2) ! (length (store (exampleAfter 1)) + 1) =
                         childCell w f (segmentB (store (exampleAfter 1) ! w))
                           (pointSet (store (exampleAfter 1) ! w)))
               else hullPoints (exampleAfter 2) = hullPoints (exampleAfter 1)
                    \<and> length (store (exampleAfter 2)) = length (store (exampleAfter 1))"
    by blast
  from k2(1) ex1_loop have d: "d = 2" by simp
  from k2(2) ex1_loop loopStopsAt_unique have w: "w = 0" unfolding d by blast
  have np: "\<not> (True \<and> progress (store (exampleAfter 1) ! 0) = SDP_RecurseOne)"
    using ex1_stop by simp
  from i2 have c4: "hullPoints (exampleAfter 2) = hullPoints (exampleAfter 1)
                    \<and> length (store (exampleAfter 2)) = length (store (exampleAfter 1))"
    unfolding w if_not_P [OF np] .
  from t3 ex_start
  have c5: "hullPoints exampleStart = [hd (sortPoints examplePoints), last (sortPoints examplePoints)]"
    by blast
  from t3 ex_start ex5_all
  have c6: "mset (hullPoints (exampleAfter 5))
        = mset ([hd (sortPoints examplePoints), last (sortPoints examplePoints)]
                @ concat (map appended (store (exampleAfter 5))))"
    by blast
  from ex2_cursor c1 ex0_cursor c2 ex2 ex2_loop c3 ex1 ex1_loop ex1_stop c4 ex_start c5
    ex5_all c6 ex5_hull
  show ?thesis by (elim conjE) (intro conjI; assumption)
qed




section \<open>The phases of a call\<close>




section \<open>Point sets and segment endpoints\<close>

text \<open>
  Claim C4 says that no cell's point set holds an endpoint of the cell's segment, the
  root included. The root cell of the example holds all three input points, among them
  both endpoints of its segment.
\<close>

theorem root_holds_own_endpoints:
  "randomizeInputWith examplePoints newQuickHull = Inr exampleStart
   \<and> nextStep exampleStart = Some 0
   \<and> pointSet (store exampleStart ! 0) = [\<lparr>x = 0, y = 0\<rparr>, \<lparr>x = 2, y = - 3\<rparr>, \<lparr>x = 4, y = 0\<rparr>]
   \<and> segmentA (store exampleStart ! 0) = \<lparr>x = 0, y = 0\<rparr>
   \<and> segmentB (store exampleStart ! 0) = \<lparr>x = 4, y = 0\<rparr>
   \<and> comparePoints (pointSet (store exampleStart ! 0) ! 0) (segmentA (store exampleStart ! 0))
   \<and> comparePoints (pointSet (store exampleStart ! 0) ! 2) (segmentB (store exampleStart ! 0))"
  by code_simp

text \<open>
  Claim C4, amended. At every point of a computation, every cell but the root (every cell
  made by \<open>prepareNextRecursion\<close>) has a parent and a point set without any point
  coordinate-equal to an endpoint of its own segment. The root cell, which holds the whole
  sorted input, holds both endpoints of its segment.
\<close>

theorem children_exclude_endpoints:
  assumes "randomizeInputWith generated q = Inr q0" and "afterSteps n q0 = Some q'"
  shows "(\<forall>a < length (store q'). 0 < a \<longrightarrow>
            prevStep (store q' ! a) \<noteq> None
            \<and> (\<forall>p \<in> set (pointSet (store q' ! a)).
                  \<not> comparePoints p (segmentA (store q' ! a))
                  \<and> \<not> comparePoints p (segmentB (store q' ! a))))
         \<and> store q' \<noteq> [] \<and> prevStep (store q' ! 0) = None
         \<and> (\<exists>p \<in> set (pointSet (store q' ! 0)). comparePoints p (segmentA (store q' ! 0)))
         \<and> (\<exists>p \<in> set (pointSet (store q' ! 0)). comparePoints p (segmentB (store q' ! 0)))"
proof -
  from afterSteps_clean [OF assms]
  have "childrenClean (store q')" and "rootHoldsBoth (store q')" .
  then show ?thesis
    unfolding childrenClean_def childOk_def rootHoldsBoth_def holdsEndpoint_def by blast
qed

text \<open>The five cells of the example after three calls.\<close>

theorem children_exclude_endpoints_witness:
  "randomizeInputWith examplePoints newQuickHull = Inr exampleStart
   \<and> afterSteps 3 exampleStart = Some (exampleAfter 3)
   \<and> length (store (exampleAfter 3)) = 5
   \<and> list_all (\<lambda>a. prevStep (store (exampleAfter 3) ! a) \<noteq> None
                     \<and> \<not> holdsEndpoint (store (exampleAfter 3) ! a)) [1, 2, 3, 4]
   \<and> prevStep (store (exampleAfter 3) ! 0) = None
   \<and> holdsEndpoint (store (exampleAfter 3) ! 0)"
proof -
  have len: "length (store (exampleAfter 3)) = 5" by code_simp
  from children_exclude_endpoints [OF ex_start ex3]
  have cells: "\<forall>a < length (store (exampleAfter 3)). 0 < a \<longrightarrow>
            prevStep (store (exampleAfter 3) ! a) \<noteq> None
            \<and> \<not> holdsEndpoint (store (exampleAfter 3) ! a)"
    and root: "prevStep (store (exampleAfter 3) ! 0) = None"
      "holdsEndpoint (store (exampleAfter 3) ! 0)"
    unfolding holdsEndpoint_def by blast+
  from cells len
  have "list_all (\<lambda>a. prevStep (store (exampleAfter 3) ! a) \<noteq> None
                     \<and> \<not> holdsEndpoint (store (exampleAfter 3) ! a)) [1, 2, 3, 4]"
    by simp
  with ex_start ex3 len root show ?thesis by simp
qed

end
